theory Spec2Isabelle
  imports
    Complex_Main
    "HOL-Library.Char_ord"
    "HOL-Library.List_Lexorder"
    "HOL-Library.Product_Lexorder"
    "HOL-Library.Sublist"
begin

section \<open>Python strings\<close>

text \<open>
  The matching engine of \<^verbatim>\<open>utils.py\<close> works on Python \<^verbatim>\<open>str\<close> values. A \<^verbatim>\<open>str\<close> is a
  sequence of code points; it is modelled as a \<^typ>\<open>string\<close>, each \<^typ>\<open>char\<close> standing
  for the code point of the same number, so the model covers the strings whose code
  points lie in the range 0..255 (ASCII and Latin-1), and \<^const>\<open>length\<close> counts what
  Python's \<^verbatim>\<open>len\<close> counts. The character classes below are those of CPython for
  that range.
\<close>

text \<open>\<^verbatim>\<open>str.isspace\<close>, which is also the class \<^verbatim>\<open>\s\<close> of \<^verbatim>\<open>re\<close> on \<^verbatim>\<open>str\<close> patterns and the
  separator class of \<^verbatim>\<open>str.split()\<close> and \<^verbatim>\<open>str.strip()\<close>.\<close>

definition isspace :: "char \<Rightarrow> bool" where
  "isspace c = (of_char c \<in> set [9, 10, 11, 12, 13, 28, 29, 30, 31, 32, 133, 160 :: nat])"

text \<open>The class \<^verbatim>\<open>\d\<close> of \<^verbatim>\<open>re\<close>: the decimal digits.\<close>

definition isdigit :: "char \<Rightarrow> bool" where
  "isdigit c = (48 \<le> (of_char c :: nat) \<and> (of_char c :: nat) \<le> 57)"

text \<open>\<^verbatim>\<open>string.punctuation\<close>: the 32 ASCII punctuation characters.\<close>

definition punctuation :: string where
  "punctuation = ''!'' @ [CHR 0x22] @ ''#$%&'' @ [CHR 0x27] @ ''()*+,-./:;<=>?@['' @
     [CHR 0x5C] @ '']^_`{|}~''"

text \<open>\<^verbatim>\<open>text.translate(str.maketrans('', '', string.punctuation))\<close> deletes every
  punctuation character.\<close>

definition remove_punctuation :: "string \<Rightarrow> string" where
  "remove_punctuation text = filter (\<lambda>c. c \<notin> set punctuation) text"

text \<open>\<^verbatim>\<open>str.lower\<close>: the letters A..Z and the Latin-1 capitals (192..222 but for the
  multiplication sign 215) move up by 32; every other character stays.\<close>

definition lower_char :: "char \<Rightarrow> char" where
  "lower_char c =
     (let n = (of_char c :: nat)
      in if (65 \<le> n \<and> n \<le> 90) \<or> (192 \<le> n \<and> n \<le> 222 \<and> n \<noteq> 215)
         then char_of (n + 32) else c)"

definition lower :: "string \<Rightarrow> string" where
  "lower text = map lower_char text"

text \<open>\<^verbatim>\<open>re.sub(r'\s+', ' ', text)\<close>: every maximal run of whitespace becomes one space.\<close>

function sub_spaces :: "string \<Rightarrow> string" where
  "sub_spaces [] = []"
| "sub_spaces (c # cs) =
     (if isspace c then CHR '' '' # sub_spaces (dropWhile isspace cs)
      else c # sub_spaces cs)"
  by pat_completeness auto
termination
  by (relation "measure length") (auto simp: le_imp_less_Suc length_dropWhile_le)

text \<open>\<^verbatim>\<open>str.strip()\<close>: whitespace is dropped at both ends.\<close>

definition strip :: "string \<Rightarrow> string" where
  "strip text = rev (dropWhile isspace (rev (dropWhile isspace text)))"

text \<open>\<^verbatim>\<open>str.split()\<close>: the maximal runs of characters that are not whitespace.\<close>

function split_ws :: "string \<Rightarrow> string list" where
  "split_ws [] = []"
| "split_ws (c # cs) =
     (if isspace c then split_ws cs
      else (c # takeWhile (\<lambda>x. \<not> isspace x) cs) # split_ws (dropWhile (\<lambda>x. \<not> isspace x) cs))"
  by pat_completeness auto
termination
  by (relation "measure length") (auto simp: le_imp_less_Suc length_dropWhile_le)

text \<open>\<^verbatim>\<open>' '.join(words)\<close>.\<close>

fun join :: "string list \<Rightarrow> string" where
  "join [] = []"
| "join [w] = w"
| "join (w # ws) = w @ '' '' @ join ws"

text \<open>\<^verbatim>\<open>s.replace(" ", "")\<close>: only the space character U+0020 is deleted.\<close>

definition remove_spaces :: "string \<Rightarrow> string" where
  "remove_spaces s = filter (\<lambda>c. c \<noteq> CHR '' '') s"

text \<open>\<^verbatim>\<open>p2.startswith(p1)\<close>.\<close>

definition startswith :: "string \<Rightarrow> string \<Rightarrow> bool" where
  "startswith s p = (take (length p) s = p)"

section \<open>Text normalizer\<close>

definition normalize_text :: "string \<Rightarrow> string" where
  "normalize_text text =
     (if text = [] then []
      else strip (sub_spaces (lower (remove_punctuation text))))"

section \<open>Name matcher\<close>

text \<open>The loop of \<^verbatim>\<open>check_abbreviation\<close> over \<^verbatim>\<open>zip(parts1, parts2)\<close>.\<close>

fun check_abbreviation_loop :: "(string \<times> string) list \<Rightarrow> bool" where
  "check_abbreviation_loop [] = True"
| "check_abbreviation_loop ((p1, p2) # rest) =
     (if length p1 = 1 \<and> startswith p2 p1 then check_abbreviation_loop rest
      else if length p2 = 1 \<and> startswith p1 p2 then check_abbreviation_loop rest
      else if p1 \<noteq> p2 then False
      else check_abbreviation_loop rest)"

definition check_abbreviation :: "string list \<Rightarrow> string list \<Rightarrow> bool" where
  "check_abbreviation parts1 parts2 =
     (if length parts1 \<noteq> length parts2 then False
      else check_abbreviation_loop (zip parts1 parts2))"

text \<open>\<^verbatim>\<open>parts[0]\<close> and \<^verbatim>\<open>parts[-1]\<close> are read only behind the length guard.\<close>

definition check_without_middle :: "string list \<Rightarrow> string list \<Rightarrow> bool" where
  "check_without_middle parts1 parts2 =
     (if length parts1 < 2 \<or> length parts2 < 2 then False
      else hd parts1 = hd parts2 \<and> last parts1 = last parts2)"

definition name_match :: "string \<Rightarrow> string \<Rightarrow> bool" where
  "name_match input_name0 extracted_name0 =
     (if input_name0 = [] \<or> extracted_name0 = [] then False
      else
        let input_name = normalize_text input_name0;
            extracted_name = normalize_text extracted_name0
        in if input_name = extracted_name then True
        else
          let input_parts = split_ws input_name;
              extracted_parts = split_ws extracted_name
          in if check_abbreviation input_parts extracted_parts
                \<or> check_abbreviation extracted_parts input_parts then True
          else if (length input_parts > 2 \<and> check_without_middle input_parts extracted_parts)
                \<or> (length extracted_parts > 2 \<and> check_without_middle extracted_parts input_parts)
            then True
          else if length input_parts = 1 \<and> hd input_parts \<in> set extracted_parts then True
          else if length extracted_parts = 1 \<and> hd extracted_parts \<in> set input_parts then True
          else if sort input_parts = sort extracted_parts then True
          else if list_all (\<lambda>part. part \<in> set extracted_parts) input_parts
                \<or> list_all (\<lambda>part. part \<in> set input_parts) extracted_parts then True
          else False)"

section \<open>Pincode extractor\<close>

text \<open>\<^verbatim>\<open>re.search(r'(\d{6})', s)\<close>: the leftmost position at which six digits follow one
  another; the match is those six characters.\<close>

fun search_six_digits :: "string \<Rightarrow> string option" where
  "search_six_digits [] = None"
| "search_six_digits (c # cs) =
     (if 6 \<le> length (c # cs) \<and> list_all isdigit (take 6 (c # cs)) then Some (take 6 (c # cs))
      else search_six_digits cs)"

definition extract_pincode :: "string \<Rightarrow> string" where
  "extract_pincode address =
     (if address = [] then []
      else case search_six_digits (remove_spaces address) of
             Some pincode \<Rightarrow> pincode
           | None \<Rightarrow> [])"

section \<open>Address normalizer\<close>

definition ADDRESS_TERMS_TO_IGNORE :: "string list" where
  "ADDRESS_TERMS_TO_IGNORE =
     [''road'', ''street'', ''lane'', ''marg'', ''nagar'', ''colony'', ''township'',
      ''apartment'', ''flat'', ''sector'', ''block'', ''phase'', ''district'', ''area'',
      ''near'', ''behind'', ''opposite'', ''beside'', ''next to'', ''across from'']"

definition normalize_address :: "string \<Rightarrow> string" where
  "normalize_address address0 =
     (if address0 = [] then []
      else
        let address = strip (sub_spaces (remove_punctuation (lower address0)));
            words = split_ws address;
            filtered_words = filter (\<lambda>word. lower word \<notin> set ADDRESS_TERMS_TO_IGNORE) words
        in join filtered_words)"

section \<open>Python floats\<close>

text \<open>
  A Python \<^verbatim>\<open>float\<close> is an IEEE 754 binary64 number. A finite one is modelled by the
  rational number it denotes, and every arithmetic operation returns the exact result
  rounded to the nearest double, ties to the even significand, as the hardware does.
  The scores of the engine lie between 0 and 200, so no operation overflows, and no
  infinity or NaN arises.
\<close>

type_synonym double = rat

text \<open>Powers of two with an integer exponent.\<close>

definition pow2 :: "int \<Rightarrow> rat" where
  "pow2 e = (if 0 \<le> e then 2 ^ nat e else 1 / 2 ^ nat (- e))"

text \<open>The number of binary digits of a positive integer.\<close>

function bit_length :: "int \<Rightarrow> int" where
  "bit_length n = (if n \<le> 0 then 0 else bit_length (n div 2) + 1)"
  by pat_completeness auto
termination
  by (relation "measure nat") auto

declare bit_length.simps [simp del]

text \<open>The binary exponent of a positive rational \<open>x\<close>: the integer \<open>e\<close> with
  \<open>2\<^sup>e \<le> x < 2\<^sup>e\<^sup>+\<^sup>1\<close>.\<close>

definition floor_log2 :: "rat \<Rightarrow> int" where
  "floor_log2 x =
     (case quotient_of x of
        (p, q) \<Rightarrow>
          let d = bit_length p - bit_length q
          in if pow2 d \<le> x then d else d - 1)"

definition round_half_even :: "rat \<Rightarrow> int" where
  "round_half_even y =
     (let q = \<lfloor>y\<rfloor>; r = y - of_int q
      in if r < 1 / 2 then q
         else if 1 / 2 < r then q + 1
         else if even q then q else q + 1)"

text \<open>Rounding to binary64: 53 significant bits, and below the smallest normal exponent
  \<open>-1022\<close> the fixed spacing of the subnormal numbers.\<close>

definition round_double :: "rat \<Rightarrow> double" where
  "round_double x =
     (if x = 0 then 0
      else
        let e = max (floor_log2 \<bar>x\<bar>) (- 1022);
            ulp = pow2 (e - 52)
        in sgn x * of_int (round_half_even (\<bar>x\<bar> / ulp)) * ulp)"

text \<open>The operations \<^verbatim>\<open>*\<close>, \<^verbatim>\<open>+\<close> and \<^verbatim>\<open>/\<close> on floats, the conversion of an \<^verbatim>\<open>int\<close> that
  meets a float in an operation, and the true division \<^verbatim>\<open>/\<close> of two \<^verbatim>\<open>int\<close>s, which
  CPython rounds correctly from the exact quotient.\<close>

definition fmul :: "double \<Rightarrow> double \<Rightarrow> double" where
  "fmul x y = round_double (x * y)"

definition fadd :: "double \<Rightarrow> double \<Rightarrow> double" where
  "fadd x y = round_double (x + y)"

definition fdiv :: "double \<Rightarrow> double \<Rightarrow> double" where
  "fdiv x y = round_double (x / y)"

definition float_of_int :: "int \<Rightarrow> double" where
  "float_of_int n = round_double (of_int n)"

definition true_divide :: "int \<Rightarrow> int \<Rightarrow> double" where
  "true_divide m n = round_double (of_int m / of_int n)"

section \<open>Similarity scorer\<close>

subsection \<open>\<^verbatim>\<open>difflib.SequenceMatcher(None, a, b)\<close>\<close>

text \<open>
  \<^verbatim>\<open>similarity_ratio\<close> calls \<^verbatim>\<open>SequenceMatcher(None, str1, str2).ratio()\<close> of the standard
  library. The matcher is modelled as CPython's \<^verbatim>\<open>Lib/difflib.py\<close> has it, with
  \<^verbatim>\<open>isjunk = None\<close> and \<^verbatim>\<open>autojunk = True\<close>, the defaults the call leaves in place.

  \<^verbatim>\<open>__chain_b\<close>: \<^verbatim>\<open>b2j\<close> maps each element of \<^verbatim>\<open>b\<close> to the ascending list of its
  positions. The set \<^verbatim>\<open>bjunk\<close> stays empty. When \<^verbatim>\<open>b\<close> has 200 elements or more, an
  element with more than \<^verbatim>\<open>len(b) // 100 + 1\<close> positions is popular and loses its entry.
\<close>

definition bjunk :: "char set" where
  "bjunk = {}"

definition bpopular :: "string \<Rightarrow> char \<Rightarrow> bool" where
  "bpopular b elt = (200 \<le> length b \<and> length b div 100 + 1 < count_list b elt)"

text \<open>\<^verbatim>\<open>b2j.get(elt, [])\<close>.\<close>

definition b2j :: "string \<Rightarrow> char \<Rightarrow> nat list" where
  "b2j b elt = (if bpopular b elt then [] else filter (\<lambda>j. b ! j = elt) [0..<length b])"

text \<open>\<^verbatim>\<open>j2len.get(j - 1, 0)\<close>; for \<^verbatim>\<open>j = 0\<close> the key is \<^verbatim>\<open>-1\<close>, which no dictionary
  of the loop holds.\<close>

definition j2lenget :: "(nat \<rightharpoonup> nat) \<Rightarrow> nat \<Rightarrow> nat" where
  "j2lenget j2len j =
     (if j = 0 then 0 else case j2len (j - 1) of None \<Rightarrow> 0 | Some v \<Rightarrow> v)"

text \<open>
  The inner loop of \<^verbatim>\<open>find_longest_match\<close>, over the positions \<^verbatim>\<open>j\<close> of \<^verbatim>\<open>a[i]\<close> in
  \<^verbatim>\<open>b\<close>: \<^verbatim>\<open>continue\<close> below \<^verbatim>\<open>blo\<close>, \<^verbatim>\<open>break\<close> from \<^verbatim>\<open>bhi\<close> on. The state is
  \<^verbatim>\<open>(newj2len, besti, bestj, bestsize)\<close>. Indices are natural numbers, so Python's
  \<^verbatim>\<open>i - k + 1\<close> is written \<^verbatim>\<open>i + 1 - k\<close>; \<^verbatim>\<open>k\<close> never exceeds \<^verbatim>\<open>i + 1\<close> or \<^verbatim>\<open>j + 1\<close>.
\<close>

fun inner_loop ::
  "(nat \<rightharpoonup> nat) \<Rightarrow> nat \<Rightarrow> nat \<Rightarrow> nat \<Rightarrow> nat list \<Rightarrow>
   (nat \<rightharpoonup> nat) \<times> nat \<times> nat \<times> nat \<Rightarrow> (nat \<rightharpoonup> nat) \<times> nat \<times> nat \<times> nat" where
  "inner_loop j2len i blo bhi [] st = st"
| "inner_loop j2len i blo bhi (j # js) (newj2len, besti, bestj, bestsize) =
     (if j < blo then inner_loop j2len i blo bhi js (newj2len, besti, bestj, bestsize)
      else if bhi \<le> j then (newj2len, besti, bestj, bestsize)
      else
        let k = j2lenget j2len j + 1
        in if bestsize < k
           then inner_loop j2len i blo bhi js (newj2len(j \<mapsto> k), i + 1 - k, j + 1 - k, k)
           else inner_loop j2len i blo bhi js (newj2len(j \<mapsto> k), besti, bestj, bestsize))"

text \<open>The outer loop \<^verbatim>\<open>for i in range(alo, ahi)\<close>; the state is
  \<^verbatim>\<open>(j2len, besti, bestj, bestsize)\<close>.\<close>

fun outer_loop ::
  "string \<Rightarrow> string \<Rightarrow> nat \<Rightarrow> nat \<Rightarrow> nat list \<Rightarrow>
   (nat \<rightharpoonup> nat) \<times> nat \<times> nat \<times> nat \<Rightarrow> (nat \<rightharpoonup> nat) \<times> nat \<times> nat \<times> nat" where
  "outer_loop a b blo bhi [] st = st"
| "outer_loop a b blo bhi (i # is) (j2len, besti, bestj, bestsize) =
     outer_loop a b blo bhi is
       (inner_loop j2len i blo bhi (b2j b (a ! i)) (Map.empty, besti, bestj, bestsize))"

text \<open>The two loops that extend the best match by elements that are not junk, to the left
  and to the right.\<close>

function extend_left ::
  "string \<Rightarrow> string \<Rightarrow> nat \<Rightarrow> nat \<Rightarrow> nat \<times> nat \<times> nat \<Rightarrow> nat \<times> nat \<times> nat" where
  "extend_left a b alo blo (besti, bestj, bestsize) =
     (if alo < besti \<and> blo < bestj \<and> b ! (bestj - 1) \<notin> bjunk \<and> a ! (besti - 1) = b ! (bestj - 1)
      then extend_left a b alo blo (besti - 1, bestj - 1, bestsize + 1)
      else (besti, bestj, bestsize))"
  by pat_completeness auto
termination
  by (relation "measure (\<lambda>(a, b, alo, blo, besti, bestj, bestsize). besti)") auto

function extend_right ::
  "string \<Rightarrow> string \<Rightarrow> nat \<Rightarrow> nat \<Rightarrow> nat \<times> nat \<times> nat \<Rightarrow> nat \<times> nat \<times> nat" where
  "extend_right a b ahi bhi (besti, bestj, bestsize) =
     (if besti + bestsize < ahi \<and> bestj + bestsize < bhi \<and> b ! (bestj + bestsize) \<notin> bjunk
         \<and> a ! (besti + bestsize) = b ! (bestj + bestsize)
      then extend_right a b ahi bhi (besti, bestj, bestsize + 1)
      else (besti, bestj, bestsize))"
  by pat_completeness auto
termination
  by (relation "measure (\<lambda>(a, b, ahi, bhi, besti, bestj, bestsize). ahi - (besti + bestsize))") auto

text \<open>The two loops that then take in matching junk on each side.\<close>

function extend_left_junk ::
  "string \<Rightarrow> string \<Rightarrow> nat \<Rightarrow> nat \<Rightarrow> nat \<times> nat \<times> nat \<Rightarrow> nat \<times> nat \<times> nat" where
  "extend_left_junk a b alo blo (besti, bestj, bestsize) =
     (if alo < besti \<and> blo < bestj \<and> b ! (bestj - 1) \<in> bjunk \<and> a ! (besti - 1) = b ! (bestj - 1)
      then extend_left_junk a b alo blo (besti - 1, bestj - 1, bestsize + 1)
      else (besti, bestj, bestsize))"
  by pat_completeness auto
termination
  by (relation "measure (\<lambda>(a, b, alo, blo, besti, bestj, bestsize). besti)") auto

function extend_right_junk ::
  "string \<Rightarrow> string \<Rightarrow> nat \<Rightarrow> nat \<Rightarrow> nat \<times> nat \<times> nat \<Rightarrow> nat \<times> nat \<times> nat" where
  "extend_right_junk a b ahi bhi (besti, bestj, bestsize) =
     (if besti + bestsize < ahi \<and> bestj + bestsize < bhi \<and> b ! (bestj + bestsize) \<in> bjunk
         \<and> a ! (besti + bestsize) = b ! (bestj + bestsize)
      then extend_right_junk a b ahi bhi (besti, bestj, bestsize + 1)
      else (besti, bestj, bestsize))"
  by pat_completeness auto
termination
  by (relation "measure (\<lambda>(a, b, ahi, bhi, besti, bestj, bestsize). ahi - (besti + bestsize))") auto

declare extend_left.simps [simp del] extend_right.simps [simp del]
  extend_left_junk.simps [simp del] extend_right_junk.simps [simp del]

definition find_longest_match ::
  "string \<Rightarrow> string \<Rightarrow> nat \<Rightarrow> nat \<Rightarrow> nat \<Rightarrow> nat \<Rightarrow> nat \<times> nat \<times> nat" where
  "find_longest_match a b alo ahi blo bhi =
     (case outer_loop a b blo bhi [alo..<ahi] (Map.empty, alo, blo, 0) of
        (j2len, best) \<Rightarrow>
          extend_right_junk a b ahi bhi
            (extend_left_junk a b alo blo
              (extend_right a b ahi bhi
                (extend_left a b alo blo best))))"

text \<open>The match that \<^verbatim>\<open>find_longest_match\<close> returns lies in the window it was given;
  the loop of \<^verbatim>\<open>get_matching_blocks\<close> ends for that reason.\<close>

lemma bjunk_empty [simp]: "c \<notin> bjunk"
  by (simp add: bjunk_def)

lemma j2lenget_le:
  assumes "\<forall>j v. j2len j = Some v \<longrightarrow> v \<le> r"
  shows "j2lenget j2len j \<le> r"
  using assms by (auto simp: j2lenget_def split: option.splits)

lemma inner_loop_bounds:
  assumes "\<forall>j v. j2len j = Some v \<longrightarrow> alo + v \<le> i"
    and "alo \<le> i"
    and "alo \<le> besti" "besti + bestsize \<le> Suc i"
    and "\<forall>j v. newj2len j = Some v \<longrightarrow> alo + v \<le> Suc i"
    and "inner_loop j2len i blo bhi js (newj2len, besti, bestj, bestsize) = (m', besti', bestj', bestsize')"
  shows "alo \<le> besti' \<and> besti' + bestsize' \<le> Suc i \<and> (\<forall>j v. m' j = Some v \<longrightarrow> alo + v \<le> Suc i)"
  using assms(3-)
proof (induction js arbitrary: newj2len besti bestj bestsize)
  case Nil
  then show ?case by simp
next
  case (Cons j js)
  define k where "k = j2lenget j2len j + 1"
  have "j2lenget j2len j \<le> i - alo"
    by (rule j2lenget_le) (use assms(1,2) in force)
  with assms(2) have k: "alo + k \<le> Suc i"
    by (simp add: k_def)
  have upd: "\<forall>j' v. (newj2len(j \<mapsto> k)) j' = Some v \<longrightarrow> alo + v \<le> Suc i"
    using Cons.prems(3) k by simp
  show ?case
  proof (cases "j < blo")
    case True
    with Cons.prems(4) have
      "inner_loop j2len i blo bhi js (newj2len, besti, bestj, bestsize) = (m', besti', bestj', bestsize')"
      by simp
    with Cons.prems(1-3) show ?thesis by (rule Cons.IH)
  next
    case nlo: False
    show ?thesis
    proof (cases "bhi \<le> j")
      case True
      with nlo Cons.prems show ?thesis by simp
    next
      case False
      show ?thesis
      proof (cases "bestsize < k")
        case True
        with nlo False Cons.prems(4) have
          "inner_loop j2len i blo bhi js (newj2len(j \<mapsto> k), i + 1 - k, j + 1 - k, k) = (m', besti', bestj', bestsize')"
          by (simp add: Let_def k_def)
        moreover have "alo \<le> i + 1 - k" "i + 1 - k + k \<le> Suc i"
          using k by simp_all
        ultimately show ?thesis
          using upd by (intro Cons.IH[where besti = "i + 1 - k" and bestsize = k]) 
      next
        case nb: False
        with nlo False Cons.prems(4) have
          "inner_loop j2len i blo bhi js (newj2len(j \<mapsto> k), besti, bestj, bestsize) = (m', besti', bestj', bestsize')"
          by (simp add: Let_def k_def)
        with Cons.prems(1,2) upd show ?thesis by (rule Cons.IH)
      qed
    qed
  qed
qed

lemma outer_loop_bounds:
  assumes "\<forall>j v. j2len j = Some v \<longrightarrow> alo + v \<le> i"
    and "alo \<le> i"
    and "alo \<le> besti" "besti + bestsize \<le> i"
    and "outer_loop a b blo bhi [i..<ahi] (j2len, besti, bestj, bestsize) = (m', besti', bestj', bestsize')"
  shows "alo \<le> besti' \<and> besti' + bestsize' \<le> max i ahi"
  using assms
proof (induction "ahi - i" arbitrary: i j2len besti bestj bestsize)
  case 0
  then show ?case by simp
next
  case (Suc n)
  then have lt: "i < ahi" by simp
  obtain m1 bi1 bj1 bs1 where
    inner: "inner_loop j2len i blo bhi (b2j b (a ! i)) (Map.empty, besti, bestj, bestsize) = (m1, bi1, bj1, bs1)"
    by (metis prod_cases4)
  have b1: "alo \<le> bi1 \<and> bi1 + bs1 \<le> Suc i \<and> (\<forall>j v. m1 j = Some v \<longrightarrow> alo + v \<le> Suc i)"
    by (rule inner_loop_bounds[OF Suc.prems(1,2) Suc.prems(3) _ _ inner]) (use Suc.prems(4) in auto)
  have "outer_loop a b blo bhi [Suc i..<ahi] (m1, bi1, bj1, bs1) = (m', besti', bestj', bestsize')"
    using Suc.prems(5) lt inner by (simp add: upt_conv_Cons)
  from Suc.hyps(1)[OF _ _ _ _ _ this] b1 Suc.hyps(2) Suc.prems(2) lt
  show ?case by auto
qed

lemma extend_left_junk_id [simp]: "extend_left_junk a b alo blo st = st"
  by (cases st) (simp add: extend_left_junk.simps)

lemma extend_right_junk_id [simp]: "extend_right_junk a b ahi bhi st = st"
  by (cases st) (simp add: extend_right_junk.simps)

lemma extend_left_bounds:
  "extend_left a b alo blo (besti, bestj, bestsize) = (i, j, k) \<Longrightarrow>
   alo \<le> besti \<Longrightarrow> alo \<le> i \<and> i + k = besti + bestsize"
proof (induction besti arbitrary: bestj bestsize)
  case 0
  then show ?case by (simp add: extend_left.simps)
next
  case (Suc n)
  show ?case
  proof (cases "alo < Suc n \<and> blo < bestj \<and> a ! n = b ! (bestj - 1)")
    case True
    with Suc.prems(1) have "extend_left a b alo blo (n, bestj - 1, bestsize + 1) = (i, j, k)"
      by (subst (asm) extend_left.simps) simp
    moreover from True have "alo \<le> n" by simp
    ultimately have "alo \<le> i \<and> i + k = n + (bestsize + 1)"
      by (rule Suc.IH)
    then show ?thesis by simp
  next
    case False
    with Suc.prems(1) have "(Suc n, bestj, bestsize) = (i, j, k)"
      by (subst (asm) extend_left.simps) auto
    with Suc.prems(2) show ?thesis by auto
  qed
qed

lemma extend_right_bounds:
  "extend_right a b ahi bhi (besti, bestj, bestsize) = (i, j, k) \<Longrightarrow>
   i = besti \<and> i + k \<le> max ahi (besti + bestsize)"
proof (induction "ahi - (besti + bestsize)" arbitrary: bestsize)
  case 0
  then show ?case by (subst (asm) extend_right.simps) (auto split: if_splits)
next
  case (Suc n)
  show ?case
  proof (cases "besti + bestsize < ahi \<and> bestj + bestsize < bhi \<and> a ! (besti + bestsize) = b ! (bestj + bestsize)")
    case True
    with Suc.prems have "extend_right a b ahi bhi (besti, bestj, bestsize + 1) = (i, j, k)"
      by (subst (asm) extend_right.simps) simp
    moreover have "n = ahi - (besti + (bestsize + 1))" using Suc.hyps(2) by simp
    ultimately have "i = besti \<and> i + k \<le> max ahi (besti + (bestsize + 1))"
      by (rule Suc.hyps(1)[rotated])
    with True show ?thesis by auto
  next
    case False
    with Suc.prems have "(besti, bestj, bestsize) = (i, j, k)"
      by (subst (asm) extend_right.simps) auto
    then show ?thesis by auto
  qed
qed

lemma find_longest_match_bounds:
  assumes "find_longest_match a b alo ahi blo bhi = (i, j, k)"
  shows "alo \<le> i \<and> i + k \<le> max alo ahi"
proof -
  obtain m bi bj bs where o: "outer_loop a b blo bhi [alo..<ahi] (Map.empty, alo, blo, 0) = (m, bi, bj, bs)"
    by (metis prod_cases4)
  have ob: "alo \<le> bi \<and> bi + bs \<le> max alo ahi"
    by (rule outer_loop_bounds[OF _ _ _ _ o]) auto
  obtain i1 j1 k1 where l: "extend_left a b alo blo (bi, bj, bs) = (i1, j1, k1)"
    by (metis prod_cases3)
  have lb: "alo \<le> i1 \<and> i1 + k1 = bi + bs"
    using extend_left_bounds[OF l] ob by simp
  obtain i2 j2 k2 where r: "extend_right a b ahi bhi (i1, j1, k1) = (i2, j2, k2)"
    by (metis prod_cases3)
  have rb: "i2 = i1 \<and> i2 + k2 \<le> max ahi (i1 + k1)"
    using extend_right_bounds[OF r] by simp
  have "find_longest_match a b alo ahi blo bhi = (i2, j2, k2)"
    by (simp add: find_longest_match_def o l r)
  with assms ob lb rb show ?thesis by auto
qed

text \<open>The loop of \<^verbatim>\<open>get_matching_blocks\<close>. The queue is a Python list used as a stack:
  \<^verbatim>\<open>pop()\<close> takes its last entry and \<^verbatim>\<open>append\<close> adds one behind it, so the head of the
  list below is the last entry of the Python list.\<close>

function matching_blocks_loop ::
  "string \<Rightarrow> string \<Rightarrow> (nat \<times> nat \<times> nat \<times> nat) list \<Rightarrow> (nat \<times> nat \<times> nat) list \<Rightarrow>
   (nat \<times> nat \<times> nat) list" where
  "matching_blocks_loop a b [] matching_blocks = matching_blocks"
| "matching_blocks_loop a b ((alo, ahi, blo, bhi) # queue) matching_blocks =
     (case find_longest_match a b alo ahi blo bhi of
        (i, j, k) \<Rightarrow>
          if k \<noteq> 0
          then matching_blocks_loop a b
                 ((if i + k < ahi \<and> j + k < bhi then [(i + k, ahi, j + k, bhi)] else []) @
                  (if alo < i \<and> blo < j then [(alo, i, blo, j)] else []) @ queue)
                 (matching_blocks @ [(i, j, k)])
          else matching_blocks_loop a b queue matching_blocks)"
  by pat_completeness auto
termination
proof (relation "measure (\<lambda>(a, b, queue, matching_blocks).
          sum_list (map (\<lambda>(alo, ahi, blo, bhi). 2 * (ahi - alo) + 1) queue))")
  fix a b :: string and alo ahi blo bhi i j k :: nat
    and queue :: "(nat \<times> nat \<times> nat \<times> nat) list"
    and matching_blocks :: "(nat \<times> nat \<times> nat) list" and y :: "nat \<times> nat"
  assume "(i, y) = find_longest_match a b alo ahi blo bhi" and "(j, k) = y" and "k \<noteq> 0"
  then have "find_longest_match a b alo ahi blo bhi = (i, j, k)"
    by simp
  from find_longest_match_bounds[OF this] \<open>k \<noteq> 0\<close>
  show "((a, b,
          (if i + k < ahi \<and> j + k < bhi then [(i + k, ahi, j + k, bhi)] else []) @
          (if alo < i \<and> blo < j then [(alo, i, blo, j)] else []) @ queue,
          matching_blocks @ [(i, j, k)]),
         a, b, (alo, ahi, blo, bhi) # queue, matching_blocks)
        \<in> measure (\<lambda>(a, b, queue, matching_blocks).
          sum_list (map (\<lambda>(alo, ahi, blo, bhi). 2 * (ahi - alo) + 1) queue))"
    by auto
qed simp_all

text \<open>The loop that merges adjacent blocks; the state is \<^verbatim>\<open>((i1, j1, k1), non_adjacent)\<close>.\<close>

fun collapse_loop ::
  "(nat \<times> nat \<times> nat) list \<Rightarrow> (nat \<times> nat \<times> nat) \<times> (nat \<times> nat \<times> nat) list \<Rightarrow>
   (nat \<times> nat \<times> nat) \<times> (nat \<times> nat \<times> nat) list" where
  "collapse_loop [] st = st"
| "collapse_loop ((i2, j2, k2) # rest) ((i1, j1, k1), non_adjacent) =
     (if i1 + k1 = i2 \<and> j1 + k1 = j2
      then collapse_loop rest ((i1, j1, k1 + k2), non_adjacent)
      else collapse_loop rest
             ((i2, j2, k2), (if k1 \<noteq> 0 then non_adjacent @ [(i1, j1, k1)] else non_adjacent)))"

definition get_matching_blocks :: "string \<Rightarrow> string \<Rightarrow> (nat \<times> nat \<times> nat) list" where
  "get_matching_blocks a b =
     (let la = length a; lb = length b;
          matching_blocks = sort (matching_blocks_loop a b [(0, la, 0, lb)] [])
      in case collapse_loop matching_blocks ((0, 0, 0), []) of
           ((i1, j1, k1), non_adjacent) \<Rightarrow>
             (if k1 \<noteq> 0 then non_adjacent @ [(i1, j1, k1)] else non_adjacent) @ [(la, lb, 0)])"

text \<open>\<^verbatim>\<open>_calculate_ratio\<close> computes \<^verbatim>\<open>2.0 * matches / length\<close>: the two integers become
  floats, and the product and the quotient are rounded.\<close>

definition calculate_ratio :: "nat \<Rightarrow> nat \<Rightarrow> double" where
  "calculate_ratio matches len =
     (if len \<noteq> 0
      then fdiv (fmul 2 (float_of_int (int matches))) (float_of_int (int len))
      else 1)"

definition ratio :: "string \<Rightarrow> string \<Rightarrow> double" where
  "ratio a b =
     calculate_ratio (sum_list (map (\<lambda>(i, j, k). k) (get_matching_blocks a b)))
       (length a + length b)"

definition similarity_ratio :: "string \<Rightarrow> string \<Rightarrow> double" where
  "similarity_ratio str1 str2 =
     (if str1 = [] \<or> str2 = [] then 0 else fmul (ratio str1 str2) 100)"

section \<open>Address matcher\<close>

text \<open>The literals \<^verbatim>\<open>0.4\<close>, \<^verbatim>\<open>0.2\<close> and \<^verbatim>\<open>0.6\<close> are the doubles nearest to 4/10, 2/10 and
  6/10; the products and the sums are rounded one by one, from left to right.\<close>

definition address_match :: "string \<Rightarrow> string \<Rightarrow> bool" where
  "address_match input_address extracted_address =
     (if input_address = [] \<or> extracted_address = [] then False
      else
        let input_pincode = extract_pincode input_address;
            extracted_pincode = extract_pincode extracted_address;
            pincode_score =
              (if input_pincode \<noteq> [] \<and> extracted_pincode \<noteq> [] \<and> input_pincode = extracted_pincode
               then 100 else 0 :: double);
            norm_input = normalize_address input_address;
            norm_extracted = normalize_address extracted_address;
            similarity_score = similarity_ratio norm_input norm_extracted;
            input_parts = split_ws norm_input;
            extracted_parts = split_ws norm_extracted;
            significant_parts = filter (\<lambda>part. 3 < length part) input_parts;
            parts_score =
              (if significant_parts \<noteq> []
               then fmul
                      (true_divide
                        (int (length (filter (\<lambda>part. part \<in> set extracted_parts) significant_parts)))
                        (int (length significant_parts)))
                      100
               else 0);
            final_score =
              (if 0 < pincode_score
               then fadd
                      (fadd (fmul (round_double (4 / 10)) pincode_score)
                            (fmul (round_double (4 / 10)) similarity_score))
                      (fmul (round_double (2 / 10)) parts_score)
               else fadd (fmul (round_double (6 / 10)) similarity_score)
                         (fmul (round_double (4 / 10)) parts_score))
        in 70 \<le> final_score)"

section \<open>Record resolver and match score\<close>

text \<open>
  \<^verbatim>\<open>calculate_match_score(extracted_data, excel_file)\<close> takes a dictionary and the path of a
  spreadsheet. The dictionary is a map from keys to strings. The spreadsheet is what
  \<^verbatim>\<open>pd.read_excel\<close> makes of the path: \<^const>\<open>None\<close> when the file does not exist or cannot
  be read (the function then returns 0, through its guard or its exception handler), and
  otherwise a frame with its column names and its rows in order. A row carries the three
  cells the loop reads, as text: \<^verbatim>\<open>UID\<close> is \<^verbatim>\<open>str(row["UID"])\<close>, and the name and the address
  are strings, as the matchers expect.
\<close>

record row =
  UID :: string
  Name :: string
  Address :: string

record dataframe =
  columns :: "string list"
  rows :: "row list"

text \<open>The loop \<^verbatim>\<open>for index, row in df.iterrows()\<close>, which returns at the first row whose
  identifier matches; when it runs out of rows the function returns 0.\<close>

fun iterrows_loop :: "string \<Rightarrow> string \<Rightarrow> string \<Rightarrow> row list \<Rightarrow> double" where
  "iterrows_loop extracted_uid name address [] = 0"
| "iterrows_loop extracted_uid name address (row # rest) =
     (let db_uid = remove_spaces (UID row)
      in if db_uid = extracted_uid
         then
           let name_matched = name_match (Name row) name;
               address_matched = address_match (Address row) address;
               name_score = (if name_matched then 100 else 0 :: int);
               address_score = (if address_matched then 100 else 0 :: int);
               overall_score = true_divide (name_score + address_score) 2
           in overall_score
         else iterrows_loop extracted_uid name address rest)"

definition calculate_match_score :: "(string \<rightharpoonup> string) \<Rightarrow> dataframe option \<Rightarrow> double" where
  "calculate_match_score extracted_data excel_file =
     (case (extracted_data ''name'', extracted_data ''uid'', extracted_data ''address'') of
        (Some name, Some uid, Some address) \<Rightarrow>
          (case excel_file of
             None \<Rightarrow> 0
           | Some df \<Rightarrow>
               if \<not> list_all (\<lambda>col. col \<in> set (columns df)) [''UID'', ''Name'', ''Address''] then 0
               else if uid = [] then 0
               else iterrows_loop (remove_spaces uid) name address (rows df))
      | _ \<Rightarrow> 0)"

section \<open>Properties of the name matcher\<close>

text \<open>The positional abbreviation rule as the specification words it: the two token
  sequences have equal length, and at every position the tokens are equal or one of them
  has length 1 and is a prefix of the other.\<close>

definition positional_abbreviation :: "string list \<Rightarrow> string list \<Rightarrow> bool" where
  "positional_abbreviation ts1 ts2 =
     list_all2 (\<lambda>t1 t2. t1 = t2 \<or> (length t1 = 1 \<and> prefix t1 t2) \<or> (length t2 = 1 \<and> prefix t2 t1))
       ts1 ts2"

lemma startswith_prefix: "startswith s p = prefix p s"
  by (auto simp: startswith_def prefix_def) (metis append_take_drop_id)

lemma check_abbreviation_loop_iff:
  "length ps1 = length ps2 \<Longrightarrow>
   check_abbreviation_loop (zip ps1 ps2) = positional_abbreviation ps1 ps2"
  unfolding positional_abbreviation_def
  by (induction ps1 ps2 rule: list_induct2) (auto simp: startswith_prefix)

lemma check_abbreviation_iff:
  "check_abbreviation ps1 ps2 = positional_abbreviation ps1 ps2"
  using check_abbreviation_loop_iff[of ps1 ps2]
  by (auto simp: check_abbreviation_def positional_abbreviation_def dest: list_all2_lengthD)

text \<open>
  Claim C7. For every pair of non-empty names whose normalized token sequences have equal
  length and where, at every position, the tokens are equal or one token has length 1 and
  is a prefix of the other (in either direction), \<^verbatim>\<open>name_match\<close> returns true.
\<close>

theorem name_match_positional_abbreviation:
  assumes "reference_name \<noteq> []" and "extracted_name \<noteq> []"
    and "positional_abbreviation (split_ws (normalize_text reference_name))
           (split_ws (normalize_text extracted_name))"
  shows "name_match reference_name extracted_name"
  using assms by (simp add: name_match_def Let_def check_abbreviation_iff)

text \<open>The example of the claim: \<^verbatim>\<open>name_match("John Smith", "J Smith")\<close>.\<close>

theorem name_match_positional_abbreviation_witness:
  "''John Smith'' \<noteq> [] \<and> ''J Smith'' \<noteq> []
   \<and> positional_abbreviation (split_ws (normalize_text ''John Smith''))
        (split_ws (normalize_text ''J Smith''))
   \<and> name_match ''John Smith'' ''J Smith''"
proof -
  have h: "positional_abbreviation (split_ws (normalize_text ''John Smith''))
        (split_ws (normalize_text ''J Smith''))"
    by code_simp
  show ?thesis
    using h name_match_positional_abbreviation [of "''John Smith''" "''J Smith''"] by simp
qed

text \<open>
  Claim C10. For every pair of non-empty name inputs that both normalize to the empty
  string, \<^verbatim>\<open>name_match\<close> returns true: the guard against empty input looks at the raw
  inputs, and the exact-match rule then compares the two normalized strings.
\<close>

theorem name_match_both_normalize_empty:
  assumes "input_name \<noteq> []" and "extracted_name \<noteq> []"
    and "normalize_text input_name = []" and "normalize_text extracted_name = []"
  shows "name_match input_name extracted_name"
  using assms by (simp add: name_match_def)

text \<open>The example of the claim: \<^verbatim>\<open>"!!!"\<close> against \<^verbatim>\<open>"???"\<close>.\<close>

theorem name_match_both_normalize_empty_witness:
  "''!!!'' \<noteq> [] \<and> ''???'' \<noteq> [] \<and> normalize_text ''!!!'' = [] \<and> normalize_text ''???'' = []
   \<and> name_match ''!!!'' ''???''"
proof -
  have h1: "normalize_text ''!!!'' = []" by code_simp
  have h2: "normalize_text ''???'' = []" by code_simp
  show ?thesis
    using h1 h2 name_match_both_normalize_empty [of "''!!!''" "''???''"] by simp
qed

section \<open>Properties of the pincode extractor\<close>

text \<open>Removing whitespace, as the specification words it: every character of the class
  \<^const>\<open>isspace\<close> goes, tabs and line breaks included.\<close>

definition remove_whitespace :: "string \<Rightarrow> string" where
  "remove_whitespace s = filter (\<lambda>c. \<not> isspace c) s"

text \<open>The maximal runs of decimal digits of a string, from left to right.\<close>

function digit_runs :: "string \<Rightarrow> string list" where
  "digit_runs [] = []"
| "digit_runs (c # cs) =
     (if isdigit c then (c # takeWhile isdigit cs) # digit_runs (dropWhile isdigit cs)
      else digit_runs cs)"
  by pat_completeness auto
termination
  by (relation "measure length") (auto simp: le_imp_less_Suc length_dropWhile_le)

lemma search_six_digits_skip:
  assumes "list_all isdigit p" and "length p < 6" and "rest = [] \<or> \<not> isdigit (hd rest)"
  shows "search_six_digits (p @ rest) = search_six_digits rest"
  using assms
proof (induction p)
  case Nil
  then show ?case by simp
next
  case (Cons d p)
  have neg: "\<not> (6 \<le> length (d # p @ rest) \<and> list_all isdigit (take 6 (d # p @ rest)))"
  proof
    assume h: "6 \<le> length (d # p @ rest) \<and> list_all isdigit (take 6 (d # p @ rest))"
    with Cons.prems(2) have ne: "rest \<noteq> []" by auto
    then obtain r rs where rest: "rest = r # rs" by (cases rest) auto
    with Cons.prems(3) have nd: "\<not> isdigit r" by simp
    have "r \<in> set (take 6 (d # p @ rest))"
    proof -
      have "(d # p @ rest) ! (length (d # p)) = r" using rest
        by (metis append_Cons nth_append_length)
      moreover have "length (d # p) < 6" using Cons.prems(2) by simp
      moreover have "length (d # p) < length (d # p @ rest)" using rest by simp
      ultimately show ?thesis
        by (metis (no_types, lifting) in_set_conv_nth length_take min_less_iff_conj nth_take)
    qed
    with h nd show False by (auto simp: list_all_iff)
  qed
  have "search_six_digits (d # p @ rest) = search_six_digits (p @ rest)"
    by (subst search_six_digits.simps) (rule if_not_P[OF neg])
  then have "search_six_digits ((d # p) @ rest) = search_six_digits (p @ rest)"
    by (simp only: append_Cons)
  also have "\<dots> = search_six_digits rest"
    using Cons by simp
  finally show ?case .
qed

lemma search_six_digits_runs:
  "search_six_digits s =
     map_option (take 6) (find (\<lambda>r. 6 \<le> length r) (digit_runs s))"
proof (induction s rule: digit_runs.induct)
  case 1
  then show ?case by simp
next
  case (2 c cs)
  show ?case
  proof (cases "isdigit c")
    case False
    then have "\<not> list_all isdigit (take 6 (c # cs))" by simp
    with False 2 show ?thesis by simp
  next
    case True
    let ?run = "c # takeWhile isdigit cs"
    let ?rest = "dropWhile isdigit cs"
    have split: "c # cs = ?run @ ?rest" by simp
    have run_digits: "list_all isdigit ?run"
      using True by (auto simp: list_all_iff dest: set_takeWhileD)
    show ?thesis
    proof (cases "6 \<le> length ?run")
      case long: True
      have "take 6 (c # cs) = take 6 ?run"
        using long by (subst split) (simp del: takeWhile_dropWhile_id)
      moreover have "list_all isdigit (take 6 ?run)"
        using run_digits by (auto simp: list_all_iff dest: in_set_takeD)
      moreover have "6 \<le> length (c # cs)"
        using long by (metis length_append split trans_le_add1)
      ultimately have "search_six_digits (c # cs) = Some (take 6 ?run)"
        by simp
      with True long show ?thesis by simp
    next
      case short: False
      have "?rest = [] \<or> \<not> isdigit (hd ?rest)"
        by (metis hd_dropWhile)
      with run_digits short have "search_six_digits (?run @ ?rest) = search_six_digits ?rest"
        by (intro search_six_digits_skip) auto
      then have "search_six_digits (c # cs) = search_six_digits ?rest"
        by simp
      with True short 2 show ?thesis by simp
    qed
  qed
qed

text \<open>
  Claim C4, amended. \<^verbatim>\<open>extract_pincode\<close> removes the space characters (U+0020 only) and
  returns the first six consecutive decimal digits of what remains, that is the first six
  digits of the first digit run of length at least 6, and the empty string when no run is
  that long.
\<close>

theorem extract_pincode_first_six_digits:
  "extract_pincode address =
     (case find (\<lambda>r. 6 \<le> length r) (digit_runs (remove_spaces address)) of
        Some r \<Rightarrow> take 6 r
      | None \<Rightarrow> [])"
  by (cases "find (\<lambda>r. 6 \<le> length r) (digit_runs (remove_spaces address))")
     (auto simp: extract_pincode_def search_six_digits_runs remove_spaces_def)

text \<open>The two examples of the specification.\<close>

theorem extract_pincode_first_six_digits_witness:
  "extract_pincode ''123 Main St, 560001'' = ''560001'' \<and> extract_pincode ''no code here'' = []"
proof -
  have "find (\<lambda>r. 6 \<le> length r) (digit_runs (remove_spaces ''123 Main St, 560001'')) = Some ''560001''"
    by code_simp
  moreover have "find (\<lambda>r. 6 \<le> length r) (digit_runs (remove_spaces ''no code here'')) = None"
    by code_simp
  ultimately show ?thesis
    using extract_pincode_first_six_digits [of "''123 Main St, 560001''"]
      extract_pincode_first_six_digits [of "''no code here''"]
    by simp
qed

text \<open>
  Claim C4 as stated fails: the only digit run of \<^verbatim>\<open>"1234567"\<close> has length 7, not 6, and
  the function returns its first six digits instead of the empty string.
\<close>

theorem extract_pincode_longer_run:
  "digit_runs (remove_whitespace ''1234567'') = [''1234567'']
   \<and> extract_pincode ''1234567'' = ''123456''"
  by code_simp

section \<open>Properties of the address matcher\<close>

text \<open>The scores of the address matcher as the specification defines them, evaluated in
  the double precision arithmetic of the program.\<close>

definition pincode_score :: "string \<Rightarrow> string \<Rightarrow> double" where
  "pincode_score reference_address extracted_address =
     (if extract_pincode reference_address \<noteq> [] \<and> extract_pincode extracted_address \<noteq> []
         \<and> extract_pincode reference_address = extract_pincode extracted_address
      then 100 else 0)"

definition similarity_score :: "string \<Rightarrow> string \<Rightarrow> double" where
  "similarity_score reference_address extracted_address =
     similarity_ratio (normalize_address reference_address) (normalize_address extracted_address)"

definition significant_tokens :: "string \<Rightarrow> string list" where
  "significant_tokens reference_address =
     filter (\<lambda>t. 3 < length t) (split_ws (normalize_address reference_address))"

definition parts_score :: "string \<Rightarrow> string \<Rightarrow> double" where
  "parts_score reference_address extracted_address =
     (if significant_tokens reference_address = [] then 0
      else fmul
             (true_divide
               (int (length (filter (\<lambda>t. t \<in> set (split_ws (normalize_address extracted_address)))
                               (significant_tokens reference_address))))
               (int (length (significant_tokens reference_address))))
             100)"

definition final_score :: "string \<Rightarrow> string \<Rightarrow> double" where
  "final_score reference_address extracted_address =
     (if 0 < pincode_score reference_address extracted_address
      then fadd
             (fadd (fmul (round_double (4 / 10)) (pincode_score reference_address extracted_address))
                   (fmul (round_double (4 / 10)) (similarity_score reference_address extracted_address)))
             (fmul (round_double (2 / 10)) (parts_score reference_address extracted_address))
      else fadd (fmul (round_double (6 / 10)) (similarity_score reference_address extracted_address))
                (fmul (round_double (4 / 10)) (parts_score reference_address extracted_address)))"



text \<open>An instance above the threshold: the pincodes agree, 10 of 21 characters match twice
  over, and one of the two significant tokens is found.\<close>

lemma address_match_above_threshold:
  "address_match ''Pune 411001'' ''Pne 411001''"
  by code_simp

section \<open>Properties of the similarity scorer\<close>

text \<open>
  Claim C2 as stated fails: \<^verbatim>\<open>SequenceMatcher\<close> anchors its blocks on the first longest
  match it meets while scanning its first argument, so the number of matched characters
  depends on the order of the arguments.
\<close>

theorem similarity_ratio_not_symmetric:
  "similarity_ratio ''tide'' ''diet'' = 25 \<and> similarity_ratio ''diet'' ''tide'' = 50"
  by code_simp

text \<open>
  Claim C2, amended. \<^verbatim>\<open>similarity_ratio(x, y) == similarity_ratio(y, x)\<close> holds when either
  argument is empty (both sides are 0) and when the two arguments are equal; for other
  arguments the two values can differ.
\<close>

theorem similarity_ratio_symmetric_cases:
  "x = [] \<or> y = [] \<or> x = y \<Longrightarrow> similarity_ratio x y = similarity_ratio y x"
  by (auto simp: similarity_ratio_def)

theorem similarity_ratio_symmetric_cases_witness:
  "(''abc'' = [] \<or> [] = [] \<or> ''abc'' = []) \<and> similarity_ratio ''abc'' [] = similarity_ratio [] ''abc''"
  using similarity_ratio_symmetric_cases [of "''abc''" "[]"] by simp

section \<open>Properties of the record resolver and the match score\<close>

text \<open>The score of one resolved record, as the specification defines it.\<close>

definition record_score :: "row \<Rightarrow> string \<Rightarrow> string \<Rightarrow> rat" where
  "record_score r name address =
     ((if name_match (Name r) name then 100 else 0)
      + (if address_match (Address r) address then 100 else 0)) / 2"

lemma record_score_values: "record_score r name address \<in> {0, 50, 100}"
  by (simp add: record_score_def)

lemma true_divide_scores:
  "true_divide 0 2 = 0" "true_divide 100 2 = 50" "true_divide 200 2 = 100"
  by code_simp+

lemma iterrows_loop_find:
  "iterrows_loop extracted_uid name address rs =
     (case find (\<lambda>r. remove_spaces (UID r) = extracted_uid) rs of
        None \<Rightarrow> 0
      | Some r \<Rightarrow> record_score r name address)"
  by (induction rs) (simp_all add: record_score_def Let_def true_divide_scores)

text \<open>
  Claim C1, amended. For every extracted identity and reference record sequence: if the
  extracted identifier is empty or no record's identifier, with its space characters
  (U+0020) removed, equals the extracted identifier with its space characters removed,
  \<^verbatim>\<open>calculate_match_score\<close> returns 0; otherwise it takes the first such record in
  sequence order and returns the mean of the name score and the address score, each 100
  or 0, so the result is one of 0, 50 and 100.
\<close>

theorem calculate_match_score_first_match:
  assumes "extracted_data ''name'' = Some name" and "extracted_data ''uid'' = Some uid"
    and "extracted_data ''address'' = Some address"
    and "set [''UID'', ''Name'', ''Address''] \<subseteq> set (columns df)"
  shows "calculate_match_score extracted_data (Some df) =
           (if uid = [] then 0
            else case find (\<lambda>r. remove_spaces (UID r) = remove_spaces uid) (rows df) of
                   None \<Rightarrow> 0
                 | Some r \<Rightarrow> record_score r name address)
         \<and> calculate_match_score extracted_data (Some df) \<in> {0, 50, 100}"
proof -
  have eq: "calculate_match_score extracted_data (Some df) =
           (if uid = [] then 0
            else case find (\<lambda>r. remove_spaces (UID r) = remove_spaces uid) (rows df) of
                   None \<Rightarrow> 0
                 | Some r \<Rightarrow> record_score r name address)"
    using assms by (simp add: calculate_match_score_def iterrows_loop_find)
  moreover have "\<dots> \<in> {0, 50, 100}"
    using record_score_values by (auto split: option.splits)
  ultimately show ?thesis by simp
qed

text \<open>The second and the third row both match the identifier; the second one decides.\<close>

theorem calculate_match_score_first_match_witness:
  "calculate_match_score
     [''name'' \<mapsto> ''R Kumar'', ''uid'' \<mapsto> ''1234 5678'', ''address'' \<mapsto> ''Pne 411001'']
     (Some \<lparr>columns = [''UID'', ''Name'', ''Address''],
            rows = [\<lparr>UID = ''99'', Name = ''Ravi Kumar'', Address = ''Pune 411001''\<rparr>,
                    \<lparr>UID = ''12345678'', Name = ''Ravi Kumar'', Address = ''Pune 411001''\<rparr>,
                    \<lparr>UID = ''1 2345678'', Name = ''Alice'', Address = ''x''\<rparr>]\<rparr>) = 100"
proof -
  let ?ed = "[''name'' \<mapsto> ''R Kumar'', ''uid'' \<mapsto> ''1234 5678'', ''address'' \<mapsto> ''Pne 411001'']"
  let ?r = "\<lparr>UID = ''12345678'', Name = ''Ravi Kumar'', Address = ''Pune 411001''\<rparr>"
  let ?df = "\<lparr>columns = [''UID'', ''Name'', ''Address''],
            rows = [\<lparr>UID = ''99'', Name = ''Ravi Kumar'', Address = ''Pune 411001''\<rparr>, ?r,
                    \<lparr>UID = ''1 2345678'', Name = ''Alice'', Address = ''x''\<rparr>]\<rparr>"
  have f: "find (\<lambda>r. remove_spaces (UID r) = remove_spaces ''1234 5678'') (rows ?df) = Some ?r"
    by (simp add: remove_spaces_def)
  have s: "record_score ?r ''R Kumar'' ''Pne 411001'' = 100"
    by code_simp
  show ?thesis
    using calculate_match_score_first_match [of ?ed "''R Kumar''" "''1234 5678''" "''Pne 411001''" ?df]
      f s
    by simp
qed

text \<open>
  Claim C1 as stated fails for whitespace other than the space character: with a line
  break inside the extracted identifier the record's identifier still equals it once all
  whitespace is removed, and the record would score 100, but the function returns 0.
\<close>

theorem calculate_match_score_line_break:
  "remove_whitespace (UID \<lparr>UID = ''12345678'', Name = ''Ravi Kumar'', Address = ''Pune 411001''\<rparr>)
     = remove_whitespace (''1234'' @ [CHR 0x0A] @ ''5678'')
   \<and> record_score \<lparr>UID = ''12345678'', Name = ''Ravi Kumar'', Address = ''Pune 411001''\<rparr>
         ''R Kumar'' ''Pne 411001'' = 100
   \<and> calculate_match_score
        [''name'' \<mapsto> ''R Kumar'', ''uid'' \<mapsto> ''1234'' @ [CHR 0x0A] @ ''5678'',
         ''address'' \<mapsto> ''Pne 411001'']
        (Some \<lparr>columns = [''UID'', ''Name'', ''Address''],
               rows = [\<lparr>UID = ''12345678'', Name = ''Ravi Kumar'', Address = ''Pune 411001''\<rparr>]\<rparr>) = 0"
  by code_simp

text \<open>
  Claim C5, amended. Identifier comparison in the record resolver strips the space
  characters (U+0020) from both identifiers before testing equality: a record is taken
  exactly when its identifier and the extracted one are equal after every space character
  is removed; otherwise the resolver moves on to the next record.
\<close>

theorem resolver_compares_without_spaces:
  assumes "extracted_data ''name'' = Some name" and "extracted_data ''uid'' = Some uid"
    and "extracted_data ''address'' = Some address"
    and "set [''UID'', ''Name'', ''Address''] \<subseteq> set cols"
    and "uid \<noteq> []"
  shows "calculate_match_score extracted_data (Some \<lparr>columns = cols, rows = r # rest\<rparr>) =
           (if remove_spaces (UID r) = remove_spaces uid
            then record_score r name address
            else calculate_match_score extracted_data (Some \<lparr>columns = cols, rows = rest\<rparr>))"
  using assms by (simp add: calculate_match_score_def record_score_def Let_def true_divide_scores)

text \<open>The example of the specification: \<^verbatim>\<open>"1234 5678 9012"\<close> matches \<^verbatim>\<open>"123456789012"\<close>.\<close>

theorem resolver_compares_without_spaces_witness:
  "calculate_match_score
     [''name'' \<mapsto> ''R Kumar'', ''uid'' \<mapsto> ''1234 5678 9012'', ''address'' \<mapsto> ''Pne 411001'']
     (Some \<lparr>columns = [''UID'', ''Name'', ''Address''],
            rows = [\<lparr>UID = ''123456789012'', Name = ''Ravi Kumar'', Address = ''Pune 411001''\<rparr>]\<rparr>)
   = record_score \<lparr>UID = ''123456789012'', Name = ''Ravi Kumar'', Address = ''Pune 411001''\<rparr>
       ''R Kumar'' ''Pne 411001''"
  using resolver_compares_without_spaces
    [of "[''name'' \<mapsto> ''R Kumar'', ''uid'' \<mapsto> ''1234 5678 9012'', ''address'' \<mapsto> ''Pne 411001'']"
        "''R Kumar''" "''1234 5678 9012''" "''Pne 411001''" "[''UID'', ''Name'', ''Address'']"
        "\<lparr>UID = ''123456789012'', Name = ''Ravi Kumar'', Address = ''Pune 411001''\<rparr>" "[]"]
  by (simp add: remove_spaces_def)

text \<open>
  Claim C5 as stated fails for tabs: the two identifiers are equal once all whitespace is
  removed, yet the resolver finds no record; with a space in place of the tab it does.
\<close>

theorem resolver_keeps_tab:
  "remove_whitespace (''1234'' @ [CHR 0x09] @ ''5678'') = remove_whitespace ''12345678''
   \<and> calculate_match_score
        [''name'' \<mapsto> ''Ravi'', ''uid'' \<mapsto> ''1234'' @ [CHR 0x09] @ ''5678'', ''address'' \<mapsto> ''411001'']
        (Some \<lparr>columns = [''UID'', ''Name'', ''Address''],
               rows = [\<lparr>UID = ''12345678'', Name = ''Ravi'', Address = ''411001''\<rparr>]\<rparr>) = 0
   \<and> calculate_match_score
        [''name'' \<mapsto> ''Ravi'', ''uid'' \<mapsto> ''1234 5678'', ''address'' \<mapsto> ''411001'']
        (Some \<lparr>columns = [''UID'', ''Name'', ''Address''],
               rows = [\<lparr>UID = ''12345678'', Name = ''Ravi'', Address = ''411001''\<rparr>]\<rparr>) = 100"
  by code_simp

section \<open>Properties of the normalizers\<close>

subsection \<open>Character classes\<close>

lemma punctuation_codes:
  "c \<in> set punctuation \<Longrightarrow> (of_char c :: nat) < 97 \<or> (122 < (of_char c :: nat) \<and> (of_char c :: nat) < 127)"
  by (auto simp: punctuation_def)

lemma isspace_space: "isspace (CHR '' '')"
  by (simp add: isspace_def)

lemma isspace_not_punctuation: "isspace c \<Longrightarrow> c \<notin> set punctuation"
  by (auto simp: punctuation_def isspace_def)

lemma lower_char_idem: "lower_char (lower_char c) = lower_char c"
  by (auto simp: lower_char_def Let_def)

lemma lower_char_not_punctuation:
  assumes "c \<notin> set punctuation"
  shows "lower_char c \<notin> set punctuation"
proof (cases "lower_char c = c")
  case True
  with assms show ?thesis by simp
next
  case False
  then have "(of_char (lower_char c) :: nat) \<in> {97..122} \<union> {224..254}"
    by (auto simp: lower_char_def Let_def split: if_splits)
  then show ?thesis
    using punctuation_codes[of "lower_char c"] by auto
qed

lemma isspace_lower_char: "isspace (lower_char c) = isspace c"
  by (auto simp: lower_char_def Let_def isspace_def)

lemma lower_char_space: "isspace c \<Longrightarrow> lower_char c = c"
  by (auto simp: lower_char_def Let_def isspace_def)


subsection \<open>Splitting and joining\<close>

text \<open>A token: a non-empty string without whitespace.\<close>

definition token :: "string \<Rightarrow> bool" where
  "token w = (w \<noteq> [] \<and> (\<forall>c \<in> set w. \<not> isspace c))"

definition headed :: "string \<Rightarrow> bool" where
  "headed s = (s = [] \<or> \<not> isspace (hd s))"

lemma split_ws_token_append:
  assumes "token w" and "rest = [] \<or> isspace (hd rest)"
  shows "split_ws (w @ rest) = w # split_ws rest"
proof -
  from assms(1) obtain c w' where w: "w = c # w'" and c: "\<not> isspace c"
    and w': "\<forall>x \<in> set w'. \<not> isspace x"
    by (cases w) (auto simp: token_def)
  have tw: "takeWhile (\<lambda>x. \<not> isspace x) rest = []"
    using assms(2) by (cases rest) auto
  have dw: "dropWhile (\<lambda>x. \<not> isspace x) rest = rest"
    using assms(2) by (cases rest) auto
  have "takeWhile (\<lambda>x. \<not> isspace x) (w' @ rest) = w'"
    using w' tw by (simp add: takeWhile_append2)
  moreover have "dropWhile (\<lambda>x. \<not> isspace x) (w' @ rest) = rest"
    using w' dw by (simp add: dropWhile_append2)
  ultimately show ?thesis
    using c by (simp add: w)
qed

lemma split_ws_tokens: "\<forall>w \<in> set (split_ws s). token w \<and> set w \<subseteq> set s"
proof (induction s rule: split_ws.induct)
  case 1
  then show ?case by simp
next
  case (2 c cs)
  show ?case
  proof (cases "isspace c")
    case True
    with 2 show ?thesis by auto
  next
    case False
    have "token (c # takeWhile (\<lambda>x. \<not> isspace x) cs)"
      using False by (auto simp: token_def dest: set_takeWhileD)
    moreover have "set (c # takeWhile (\<lambda>x. \<not> isspace x) cs) \<subseteq> set (c # cs)"
      by (auto dest: set_takeWhileD)
    moreover have "\<forall>w \<in> set (split_ws (dropWhile (\<lambda>x. \<not> isspace x) cs)).
        token w \<and> set w \<subseteq> set (c # cs)"
      using 2(2)[OF False] by (auto dest: set_dropWhileD)
    ultimately show ?thesis
      using False by simp
  qed
qed

lemma split_ws_dropWhile: "split_ws (dropWhile isspace s) = split_ws s"
  by (induction s) auto

lemma split_ws_join:
  "\<forall>w \<in> set ws. token w \<Longrightarrow> split_ws (join ws) = ws"
proof (induction ws rule: join.induct)
  case 1
  then show ?case by simp
next
  case (2 w)
  then have "token w" by simp
  from split_ws_token_append[OF this, of "[]"] show ?case by simp
next
  case (3 w v ws)
  then have w: "token w" by simp
  have "split_ws (w @ (CHR '' '' # join (v # ws))) = w # split_ws (CHR '' '' # join (v # ws))"
    by (rule split_ws_token_append[OF w]) (simp add: isspace_def)
  also have "split_ws (CHR '' '' # join (v # ws)) = split_ws (join (v # ws))"
    by (simp add: isspace_def)
  also have "\<dots> = v # ws"
    using 3 by simp
  finally show ?case by simp
qed

lemma join_Cons: "ws \<noteq> [] \<Longrightarrow> join (w # ws) = w @ CHR '' '' # join ws"
  by (cases ws) simp_all

lemma sub_spaces_token_append:
  "\<forall>c \<in> set w. \<not> isspace c \<Longrightarrow> sub_spaces (w @ rest) = w @ sub_spaces rest"
  by (induction w) auto

lemma sub_spaces_headed: "headed s \<Longrightarrow> headed (sub_spaces s)"
  by (cases s) (auto simp: headed_def)

lemma headed_dropWhile: "headed (dropWhile isspace s)"
  unfolding headed_def by (metis hd_dropWhile)

lemma dropWhile_headed: "headed s \<Longrightarrow> dropWhile isspace s = s"
  by (cases s) (auto simp: headed_def)

lemma dropWhile_sub_spaces:
  "dropWhile isspace (sub_spaces s) = sub_spaces (dropWhile isspace s)"
proof (cases s)
  case Nil
  then show ?thesis by simp
next
  case (Cons c cs)
  show ?thesis
  proof (cases "isspace c")
    case True
    have "dropWhile isspace (sub_spaces (dropWhile isspace cs)) = sub_spaces (dropWhile isspace cs)"
      by (intro dropWhile_headed sub_spaces_headed headed_dropWhile)
    with True show ?thesis
      by (simp add: Cons isspace_def)
  next
    case False
    then show ?thesis by (simp add: Cons)
  qed
qed

text \<open>Dropping whitespace at the right end.\<close>

definition rstrip :: "string \<Rightarrow> string" where
  "rstrip s = rev (dropWhile isspace (rev s))"

lemma strip_rstrip: "strip s = rstrip (dropWhile isspace s)"
  by (simp add: strip_def rstrip_def)

lemma rstrip_token: "token w \<Longrightarrow> rstrip (w @ s) = w @ rstrip s"
proof -
  assume "token w"
  then have "\<forall>c \<in> set w. \<not> isspace c" and "w \<noteq> []"
    by (auto simp: token_def)
  then have "dropWhile isspace (rev w) = rev w"
    by (cases "rev w") auto
  then show ?thesis
    by (simp add: rstrip_def dropWhile_append \<open>w \<noteq> []\<close>)
qed

lemma rstrip_space_append:
  "rstrip s \<noteq> [] \<Longrightarrow> rstrip (c # s) = c # rstrip s"
  by (auto simp: rstrip_def dropWhile_append)

lemma rstrip_nil: "rstrip [] = []"
  by (simp add: rstrip_def)

lemma rstrip_space: "isspace c \<Longrightarrow> rstrip [c] = []"
  by (simp add: rstrip_def)

lemma rstrip_sub_spaces:
  "headed s \<Longrightarrow> rstrip (sub_spaces s) = join (split_ws s)"
proof (induction s rule: length_induct)
  case (1 s)
  show ?case
  proof (cases s)
    case Nil
    then show ?thesis by (simp add: rstrip_nil)
  next
    case (Cons c cs)
    with 1(2) have c: "\<not> isspace c" by (simp add: headed_def)
    let ?w = "c # takeWhile (\<lambda>x. \<not> isspace x) cs"
    let ?rest = "dropWhile (\<lambda>x. \<not> isspace x) cs"
    have w: "token ?w"
      using c by (auto simp: token_def dest: set_takeWhileD)
    have s: "s = ?w @ ?rest" by (simp add: Cons)
    have rest: "?rest = [] \<or> isspace (hd ?rest)"
      using hd_dropWhile[of "\<lambda>x. \<not> isspace x" cs] by auto
    have sub: "sub_spaces s = ?w @ sub_spaces ?rest"
      by (subst s, rule sub_spaces_token_append) (use w in \<open>auto simp: token_def\<close>)
    have spl: "split_ws s = ?w # split_ws ?rest"
      using c by (simp add: Cons)
    show ?thesis
    proof (cases ?rest)
      case Nil
      have "rstrip ?w = ?w"
        using rstrip_token[OF w, of "[]"] by (simp add: rstrip_nil)
      moreover have "sub_spaces s = ?w"
        unfolding sub Nil by simp
      moreover have "split_ws s = [?w]"
        unfolding spl Nil by simp
      ultimately show ?thesis
        by (simp only: join.simps)
    next
      case rc: (Cons sp r')
      with rest have sp: "isspace sp" by simp
      let ?r'' = "dropWhile isspace r'"
      have sub_rest: "sub_spaces ?rest = CHR '' '' # sub_spaces ?r''"
        using sp by (simp add: rc)
      have spl_rest: "split_ws ?rest = split_ws ?r''"
        using sp by (simp add: rc split_ws_dropWhile)
      have "length ?r'' < length s"
      proof -
        have "length ?r'' \<le> length r'" by (rule length_dropWhile_le)
        also have "\<dots> < length ?rest" by (simp add: rc)
        also have "\<dots> \<le> length cs" by (rule length_dropWhile_le)
        also have "\<dots> < length s" by (simp add: Cons)
        finally show ?thesis .
      qed
      then have IH: "rstrip (sub_spaces ?r'') = join (split_ws ?r'')"
        using 1(1) headed_dropWhile by blast
      show ?thesis
      proof (cases ?r'')
        case Nil
        have "rstrip (sub_spaces s) = ?w @ rstrip [CHR '' '']"
          unfolding sub sub_rest Nil using rstrip_token[OF w] by simp
        also have "\<dots> = ?w"
          using rstrip_space[OF isspace_space] by simp
        finally have "rstrip (sub_spaces s) = ?w" .
        moreover have "split_ws s = [?w]"
          unfolding spl spl_rest Nil by simp
        ultimately show ?thesis
          by (simp only: join.simps)
      next
        case r2: (Cons d ds)
        have d: "\<not> isspace d"
          using headed_dropWhile[of r'] by (simp add: r2 headed_def)
        then have ne: "split_ws ?r'' \<noteq> []"
          by (simp add: r2)
        then have "join (split_ws ?r'') \<noteq> []"
          using split_ws_tokens[of ?r'']
          by (cases "split_ws ?r''" rule: join.cases) (auto simp: token_def)
        with IH have "rstrip (sub_spaces ?r'') \<noteq> []" by simp
        then have "rstrip (CHR '' '' # sub_spaces ?r'') = CHR '' '' # rstrip (sub_spaces ?r'')"
          by (rule rstrip_space_append)
        then have "rstrip (sub_spaces s) = ?w @ CHR '' '' # join (split_ws ?r'')"
          unfolding sub sub_rest using rstrip_token[OF w] IH by simp
        also have "\<dots> = join (?w # split_ws ?r'')"
          using join_Cons[OF ne] by simp
        finally show ?thesis
          by (simp add: spl spl_rest)
      qed
    qed
  qed
qed

lemma strip_sub_spaces: "strip (sub_spaces s) = join (split_ws s)"
  by (simp add: strip_rstrip dropWhile_sub_spaces rstrip_sub_spaces headed_dropWhile
      split_ws_dropWhile)


subsection \<open>Idempotence\<close>

text \<open>A clean string: no punctuation, and nothing that \<^const>\<open>lower\<close> would change.\<close>

definition clean :: "string \<Rightarrow> bool" where
  "clean w = (\<forall>c \<in> set w. c \<notin> set punctuation \<and> lower_char c = c)"

lemma clean_join: "\<forall>w \<in> set ws. clean w \<Longrightarrow> clean (join ws)"
proof (induction ws rule: join.induct)
  case (3 w v ws)
  then have "clean w" and "clean (join (v # ws))"
    by simp_all
  moreover have "clean '' ''"
    by (simp add: clean_def punctuation_def lower_char_def)
  ultimately show ?case
    by (auto simp: clean_def)
qed (simp_all add: clean_def)

lemma clean_fixed: "clean s \<Longrightarrow> remove_punctuation s = s \<and> lower s = s"
  by (auto simp: clean_def remove_punctuation_def lower_def map_idI)

lemma clean_lower_remove: "clean (lower (remove_punctuation x))"
  by (auto simp: clean_def lower_def remove_punctuation_def lower_char_idem
      lower_char_not_punctuation)

lemma clean_remove_lower: "clean (remove_punctuation (lower x))"
  by (auto simp: clean_def lower_def remove_punctuation_def lower_char_idem)

lemma split_ws_clean: "clean s \<Longrightarrow> \<forall>w \<in> set (split_ws s). token w \<and> clean w"
  using split_ws_tokens[of s] by (auto simp: clean_def)

lemma normalize_text_join:
  assumes "\<forall>w \<in> set ws. token w \<and> clean w"
  shows "normalize_text (join ws) = join ws"
proof -
  have "clean (join ws)"
    using assms by (intro clean_join) simp
  then have "lower (remove_punctuation (join ws)) = join ws"
    using clean_fixed by simp
  moreover have "split_ws (join ws) = ws"
    using assms by (intro split_ws_join) simp
  ultimately show ?thesis
    by (simp add: normalize_text_def strip_sub_spaces)
qed

lemma normalize_text_tokens:
  "normalize_text x = join (split_ws (lower (remove_punctuation x)))"
  by (simp add: normalize_text_def strip_sub_spaces lower_def remove_punctuation_def)

lemma normalize_text_idempotent:
  "normalize_text (normalize_text x) = normalize_text x"
  unfolding normalize_text_tokens[of x]
  by (intro normalize_text_join split_ws_clean clean_lower_remove)

lemma normalize_address_tokens:
  "normalize_address x =
     join (filter (\<lambda>word. lower word \<notin> set ADDRESS_TERMS_TO_IGNORE)
            (split_ws (remove_punctuation (lower x))))"
proof -
  let ?t = "remove_punctuation (lower x)"
  have "split_ws (join (split_ws ?t)) = split_ws ?t"
    using split_ws_tokens[of ?t] by (intro split_ws_join) simp
  then show ?thesis
    by (simp add: normalize_address_def strip_sub_spaces Let_def lower_def remove_punctuation_def)
qed

lemma normalize_address_join:
  assumes "\<forall>w \<in> set ws. token w \<and> clean w \<and> lower w \<notin> set ADDRESS_TERMS_TO_IGNORE"
  shows "normalize_address (join ws) = join ws"
proof -
  have "clean (join ws)"
    using assms by (intro clean_join) simp
  then have "remove_punctuation (lower (join ws)) = join ws"
    using clean_fixed by simp
  moreover have "split_ws (join ws) = ws"
    using assms by (intro split_ws_join) simp
  moreover have "filter (\<lambda>word. lower word \<notin> set ADDRESS_TERMS_TO_IGNORE) ws = ws"
    using assms by (simp add: filter_id_conv)
  ultimately show ?thesis
    by (simp add: normalize_address_tokens)
qed

lemma normalize_address_idempotent:
  "normalize_address (normalize_address x) = normalize_address x"
  unfolding normalize_address_tokens[of x]
  using split_ws_clean[OF clean_remove_lower, of x]
  by (intro normalize_address_join) simp

text \<open>
  Claim C8. The normalization functions are idempotent: normalizing a normalized text
  changes nothing, for the text normalizer and for the address normalizer.
\<close>

theorem normalizers_idempotent:
  "normalize_text (normalize_text x) = normalize_text x
   \<and> normalize_address (normalize_address x) = normalize_address x"
  using normalize_text_idempotent normalize_address_idempotent by simp

text \<open>An instance with capitals, punctuation, a tab and an ignored address term.\<close>

theorem normalizers_idempotent_witness:
  "normalize_text (normalize_text (''  J.  SMITH-Jr '' @ [CHR 0x09] @ '' x''))
     = normalize_text (''  J.  SMITH-Jr '' @ [CHR 0x09] @ '' x'')
   \<and> normalize_address (normalize_address (''  J.  SMITH-Jr '' @ [CHR 0x09] @ '' x''))
     = normalize_address (''  J.  SMITH-Jr '' @ [CHR 0x09] @ '' x'')"
  by (rule normalizers_idempotent)

section \<open>Properties of the rounding\<close>

text \<open>The binary exponent is what its name says; from 1 upwards, rounding commutes with
  doubling and leaves a rounded number as it is. So the ratio of a sequence with itself,
  \<^verbatim>\<open>2.0 * n / (n + n)\<close>, is exactly 1 for every length.\<close>

lemma pow2_powi: "pow2 e = 2 powi e"
  unfolding pow2_def power_int_def
  by (simp add: inverse_eq_divide power_divide)

lemma pow2_pos: "0 < pow2 e"
  by (simp add: pow2_powi)

lemma pow2_add: "pow2 (a + b) = pow2 a * pow2 b"
  by (simp add: pow2_powi power_int_add)

lemma pow2_diff: "pow2 (a - b) = pow2 a / pow2 b"
  by (simp add: pow2_powi power_int_diff)

lemma pow2_Suc: "pow2 (e + 1) = 2 * pow2 e"
  by (simp add: pow2_powi power_int_add_1')

lemma pow2_less_iff: "pow2 a < pow2 b \<longleftrightarrow> a < b"
proof
  assume "a < b"
  then show "pow2 a < pow2 b"
    by (simp add: pow2_powi power_int_strict_increasing)
next
  assume h: "pow2 a < pow2 b"
  show "a < b"
  proof (rule ccontr)
    assume "\<not> a < b"
    then have "b \<le> a" by simp
    then have "pow2 b \<le> pow2 a"
      by (simp add: pow2_powi power_int_increasing)
    with h show False by simp
  qed
qed

lemma pow2_le_iff: "pow2 a \<le> pow2 b \<longleftrightarrow> a \<le> b"
  using pow2_less_iff[of b a] by (auto simp: not_less[symmetric])

lemma pow2_nat: "0 \<le> e \<Longrightarrow> pow2 e = 2 ^ nat e"
  by (simp add: pow2_def)

lemma bit_length_pos: "0 < n \<Longrightarrow> 0 < bit_length n"
proof (induction n rule: bit_length.induct)
  case (1 n)
  then show ?case
    by (subst bit_length.simps) (smt (verit, best) bit_length.simps)
qed

lemma bit_length_bounds_int:
  "0 < n \<Longrightarrow> 2 ^ nat (bit_length n - 1) \<le> n \<and> n < 2 ^ nat (bit_length n)"
proof (induction n rule: bit_length.induct)
  case (1 n)
  show ?case
  proof (cases "n = 1")
    case True
    have "bit_length 1 = 1"
      by (simp add: bit_length.simps[of 1] bit_length.simps[of 0])
    with True show ?thesis by simp
  next
    case False
    with 1(2) have h: "0 < n div 2" by simp
    have bl: "bit_length n = bit_length (n div 2) + 1"
      using 1(2) by (subst bit_length.simps) simp
    from 1(1)[OF _ h] 1(2)
    have IH: "2 ^ nat (bit_length (n div 2) - 1) \<le> n div 2" "n div 2 < 2 ^ nat (bit_length (n div 2))"
      by simp_all
    have p: "0 < bit_length (n div 2)"
      using h by (rule bit_length_pos)
    then have e: "nat (bit_length (n div 2)) = Suc (nat (bit_length (n div 2) - 1))"
      by simp
    have lo: "2 ^ nat (bit_length (n div 2)) \<le> n"
    proof -
      have "(2::int) ^ nat (bit_length (n div 2)) = 2 * 2 ^ nat (bit_length (n div 2) - 1)"
        by (subst e) simp
      also have "\<dots> \<le> 2 * (n div 2)" using IH(1) by simp
      also have "\<dots> \<le> n" by simp
      finally show ?thesis .
    qed
    have hi: "n < 2 ^ nat (bit_length (n div 2) + 1)"
    proof -
      have "n div 2 + 1 \<le> 2 ^ nat (bit_length (n div 2))" using IH(2) by simp
      then have "2 * (n div 2) + 2 \<le> 2 * 2 ^ nat (bit_length (n div 2))" by simp
      moreover have "n < 2 * (n div 2) + 2" by simp
      moreover have "(2::int) ^ nat (bit_length (n div 2) + 1) = 2 * 2 ^ nat (bit_length (n div 2))"
        using p by (simp add: nat_add_distrib)
      ultimately show ?thesis by simp
    qed
    show ?thesis
      using lo hi by (simp add: bl)
  qed
qed

lemma bit_length_bounds:
  assumes "0 < n"
  shows "pow2 (bit_length n - 1) \<le> of_int n" and "of_int n < pow2 (bit_length n)"
proof -
  from bit_length_pos[OF assms] have p: "0 \<le> bit_length n - 1" "0 \<le> bit_length n"
    by simp_all
  from bit_length_bounds_int[OF assms]
  have "(of_int (2 ^ nat (bit_length n - 1)) :: rat) \<le> of_int n"
    and "(of_int n :: rat) < of_int (2 ^ nat (bit_length n))"
    by (simp_all only: of_int_le_iff of_int_less_iff)
  then show "pow2 (bit_length n - 1) \<le> of_int n" and "of_int n < pow2 (bit_length n)"
    using p by (simp_all add: pow2_nat)
qed

lemma floor_log2_bounds:
  assumes "0 < x"
  shows "pow2 (floor_log2 x) \<le> x \<and> x < pow2 (floor_log2 x + 1)"
proof -
  obtain p q where pq: "quotient_of x = (p, q)" by (cases "quotient_of x")
  then have q: "0 < q" by (rule quotient_of_denom_pos)
  have x: "x = of_int p / of_int q" using pq by (rule quotient_of_div)
  with assms q have p: "0 < p"
    by (simp add: zero_less_divide_iff)
  let ?d = "bit_length p - bit_length q"
  have qpos: "(0::rat) < of_int q" using q by simp
  have up: "x < pow2 (?d + 1)"
  proof -
    have "of_int p < pow2 (bit_length p)" using p by (rule bit_length_bounds)
    moreover have "pow2 (bit_length q - 1) \<le> of_int q" using q by (rule bit_length_bounds)
    ultimately have "of_int p / of_int q < pow2 (bit_length p) / pow2 (bit_length q - 1)"
      using qpos pow2_pos[of "bit_length q - 1"] p
      by (intro frac_less) auto
    also have "\<dots> = pow2 (?d + 1)"
      by (simp add: pow2_diff[symmetric] algebra_simps)
    finally show ?thesis by (simp add: x)
  qed
  have lo: "pow2 (?d - 1) \<le> x"
  proof -
    have "pow2 (bit_length p - 1) \<le> of_int p" using p by (rule bit_length_bounds)
    moreover have "of_int q < pow2 (bit_length q)" using q by (rule bit_length_bounds)
    ultimately have "pow2 (bit_length p - 1) / pow2 (bit_length q) \<le> of_int p / of_int q"
      using qpos pow2_pos[of "bit_length p - 1"]
      by (intro frac_le) (auto simp: less_imp_le)
    moreover have "pow2 (bit_length p - 1) / pow2 (bit_length q) = pow2 (?d - 1)"
      by (simp add: pow2_diff[symmetric] algebra_simps)
    ultimately show ?thesis by (simp add: x)
  qed
  show ?thesis
  proof (cases "pow2 ?d \<le> x")
    case True
    then have "floor_log2 x = ?d" by (simp add: floor_log2_def pq Let_def)
    with True up show ?thesis by simp
  next
    case False
    then have "floor_log2 x = ?d - 1" by (simp add: floor_log2_def pq Let_def)
    with False lo show ?thesis by simp
  qed
qed

lemma floor_log2_unique:
  assumes "pow2 e \<le> x" and "x < pow2 (e + 1)"
  shows "floor_log2 x = e"
proof -
  have x: "0 < x" using assms(1) pow2_pos[of e] by simp
  from floor_log2_bounds[OF x]
  have "pow2 (floor_log2 x) < pow2 (e + 1)" and "pow2 e < pow2 (floor_log2 x + 1)"
    using assms by simp_all
  then show ?thesis by (simp add: pow2_less_iff)
qed


lemma round_half_even_of_int: "round_half_even (of_int m) = m"
  by (simp add: round_half_even_def)

lemma round_half_even_bounds: "\<lfloor>y\<rfloor> \<le> round_half_even y \<and> round_half_even y \<le> \<lfloor>y\<rfloor> + 1"
  by (simp add: round_half_even_def Let_def)

lemma floor_log2_nonneg: "1 \<le> x \<Longrightarrow> 0 \<le> floor_log2 x"
proof -
  assume x: "1 \<le> x"
  then have "0 < x" by simp
  from floor_log2_bounds[OF this] x have "pow2 0 < pow2 (floor_log2 x + 1)"
    by (simp add: pow2_def)
  then show ?thesis by (simp add: pow2_less_iff)
qed

lemma pow2_shift: "pow2 e = 2 ^ k * pow2 (e - int k)"
proof -
  have "pow2 e = pow2 (int k + (e - int k))" by simp
  also have "\<dots> = pow2 (int k) * pow2 (e - int k)" by (rule pow2_add)
  also have "pow2 (int k) = 2 ^ k" by (simp add: pow2_def)
  finally show ?thesis .
qed

lemma round_double_normal:
  assumes "0 < x" and "0 \<le> floor_log2 x" and "g = floor_log2 x - 52"
  shows "round_double x = of_int (round_half_even (x / pow2 g)) * pow2 g"
  using assms by (simp add: round_double_def Let_def max_def)

lemma round_double_double:
  assumes "1 \<le> x"
  shows "round_double (2 * x) = 2 * round_double x"
proof -
  define f where "f = floor_log2 x"
  define g where "g = f - 52"
  have x: "0 < x" using assms by simp
  have f: "0 \<le> f" unfolding f_def using assms by (rule floor_log2_nonneg)
  have "pow2 (f + 1 + 1) = 2 * pow2 (f + 1)"
    by (rule pow2_Suc)
  moreover have "pow2 (f + 1) = 2 * pow2 f"
    by (rule pow2_Suc)
  ultimately have "pow2 (f + 1) \<le> 2 * x" "2 * x < pow2 (f + 1 + 1)"
    using floor_log2_bounds[OF x] unfolding f_def by linarith+
  then have f2: "floor_log2 (2 * x) = f + 1"
    by (rule floor_log2_unique)
  have u: "pow2 (g + 1) = 2 * pow2 g"
    by (rule pow2_Suc)
  have pos: "0 < pow2 g" by (rule pow2_pos)
  have "round_double (2 * x) = of_int (round_half_even (2 * x / pow2 (g + 1))) * pow2 (g + 1)"
    by (rule round_double_normal) (use x f in \<open>simp_all add: f2 g_def\<close>)
  also have "2 * x / pow2 (g + 1) = x / pow2 g"
    unfolding u by simp
  finally have "round_double (2 * x) = 2 * (of_int (round_half_even (x / pow2 g)) * pow2 g)"
    unfolding u by simp
  moreover have "round_double x = of_int (round_half_even (x / pow2 g)) * pow2 g"
    by (rule round_double_normal) (use x f in \<open>simp_all add: f_def g_def\<close>)
  ultimately show ?thesis by simp
qed

lemma round_double_fixed:
  assumes "1 \<le> x"
  shows "1 \<le> round_double x \<and> round_double (round_double x) = round_double x"
proof -
  define f where "f = floor_log2 x"
  define g where "g = f - 52"
  define m where "m = round_half_even (x / pow2 g)"
  have x: "0 < x" using assms by simp
  have f: "0 \<le> f" unfolding f_def using assms by (rule floor_log2_nonneg)
  have u: "0 < pow2 g" by (rule pow2_pos)
  have rd: "round_double x = of_int m * pow2 g"
    unfolding m_def by (rule round_double_normal) (use x f in \<open>simp_all add: f_def g_def\<close>)
  have p52: "pow2 f = 2 ^ 52 * pow2 g"
    using pow2_shift[of f 52] by (simp add: g_def)
  have p53: "pow2 (f + 1) = 2 ^ 53 * pow2 g"
    using pow2_shift[of "f + 1" 53] by (simp add: g_def)
  have p54: "pow2 (f + 1 + 1) = 2 ^ 54 * pow2 g"
    using pow2_shift[of "f + 1 + 1" 54] by (simp add: g_def)
  from floor_log2_bounds[OF x] have "2 ^ 52 * pow2 g \<le> x" "x < 2 ^ 53 * pow2 g"
    unfolding f_def[symmetric] p52 p53 by simp_all
  then have y: "2 ^ 52 \<le> x / pow2 g" "x / pow2 g < 2 ^ 53"
    using u by (simp_all add: pos_le_divide_eq pos_divide_less_eq)
  have fl1: "(2::int) ^ 52 \<le> \<lfloor>x / pow2 g\<rfloor>"
    using y(1) by (simp add: le_floor_iff)
  have fl2: "\<lfloor>x / pow2 g\<rfloor> < (2::int) ^ 53"
    using y(2) by (simp add: floor_less_iff)
  have mb: "2 ^ 52 \<le> m" "m \<le> 2 ^ 53"
    using round_half_even_bounds[of "x / pow2 g"] fl1 fl2 unfolding m_def by linarith+
  have "(of_int ((2::int) ^ 52) :: rat) \<le> of_int m"
    using mb(1) by (simp only: of_int_le_iff)
  then have m52: "(2::rat) ^ 52 \<le> of_int m" by simp
  have lo: "pow2 f \<le> of_int m * pow2 g"
    unfolding p52 using m52 u by simp
  have ge1: "1 \<le> round_double x"
  proof -
    have "pow2 0 \<le> pow2 f" using f by (simp add: pow2_le_iff)
    moreover have "pow2 0 = 1" by (simp add: pow2_def)
    ultimately show ?thesis using lo by (simp add: rd)
  qed
  have pos: "0 < of_int m * pow2 g"
    using lo pow2_pos[of f] by simp
  have "round_double (of_int m * pow2 g) = of_int m * pow2 g"
  proof (cases "m = 2 ^ 53")
    case True
    then have v: "of_int m * pow2 g = pow2 (f + 1)"
      by (simp add: p53)
    have "pow2 (f + 1) \<le> of_int m * pow2 g" "of_int m * pow2 g < pow2 (f + 1 + 1)"
      unfolding v by (simp_all add: pow2_less_iff)
    then have fl: "floor_log2 (of_int m * pow2 g) = f + 1"
      by (rule floor_log2_unique)
    have h1: "0 \<le> floor_log2 (of_int m * pow2 g)"
      unfolding fl using f by simp
    have h2: "g + 1 = floor_log2 (of_int m * pow2 g) - 52"
      unfolding fl by (simp add: g_def)
    have "round_double (of_int m * pow2 g) =
            of_int (round_half_even (of_int m * pow2 g / pow2 (g + 1))) * pow2 (g + 1)"
      by (rule round_double_normal[OF pos h1 h2])
    also have "of_int m * pow2 g / pow2 (g + 1) = of_int (2 ^ 52)"
      unfolding pow2_Suc using u by (simp add: True)
    also have "of_int (round_half_even (of_int (2 ^ 52))) * pow2 (g + 1) = of_int m * pow2 g"
      unfolding round_half_even_of_int pow2_Suc by (simp add: True)
    finally show ?thesis .
  next
    case False
    with mb(2) have "m < 2 ^ 53" by simp
    then have "(of_int m :: rat) < of_int ((2::int) ^ 53)"
      by (simp only: of_int_less_iff)
    then have "(of_int m :: rat) < 2 ^ 53" by simp
    then have hi: "of_int m * pow2 g < pow2 (f + 1)"
      unfolding p53 using u by simp
    from lo hi have fl: "floor_log2 (of_int m * pow2 g) = f"
      by (rule floor_log2_unique)
    have h1: "0 \<le> floor_log2 (of_int m * pow2 g)"
      unfolding fl using f by simp
    have h2: "g = floor_log2 (of_int m * pow2 g) - 52"
      unfolding fl by (simp add: g_def)
    have "round_double (of_int m * pow2 g) =
            of_int (round_half_even (of_int m * pow2 g / pow2 g)) * pow2 g"
      by (rule round_double_normal[OF pos h1 h2])
    also have "of_int m * pow2 g / pow2 g = of_int m"
      using u by simp
    finally show ?thesis by (simp only: round_half_even_of_int)
  qed
  with ge1 show ?thesis by (simp add: rd)
qed

lemma calculate_ratio_all:
  assumes "0 < n"
  shows "calculate_ratio n (n + n) = 1"
proof -
  define N where "N = (of_int (int n) :: rat)"
  have N: "1 \<le> N" unfolding N_def using assms by simp
  have fixed: "1 \<le> round_double N" "round_double (round_double N) = round_double N"
    using round_double_fixed[OF N] by simp_all
  have "fmul 2 (float_of_int (int n)) = round_double (2 * round_double N)"
    by (simp add: fmul_def float_of_int_def N_def)
  also have "\<dots> = 2 * round_double N"
    using round_double_double[OF fixed(1)] fixed(2) by simp
  finally have a: "fmul 2 (float_of_int (int n)) = 2 * round_double N" .
  have "float_of_int (int (n + n)) = round_double (2 * N)"
    by (simp add: float_of_int_def N_def)
  also have "\<dots> = 2 * round_double N"
    by (rule round_double_double[OF N])
  finally have b: "float_of_int (int (n + n)) = 2 * round_double N" .
  have nz: "2 * round_double N \<noteq> 0"
    using fixed(1) by simp
  have one: "round_double 1 = 1"
    by code_simp
  have "calculate_ratio n (n + n) = fdiv (2 * round_double N) (2 * round_double N)"
    using assms unfolding calculate_ratio_def a b by simp
  also have "\<dots> = round_double 1"
    unfolding fdiv_def using nz by simp
  finally show ?thesis by (simp add: one)
qed

lemma fmul_one_hundred: "fmul 1 100 = 100"
  by code_simp

section \<open>A sequence against itself\<close>

text \<open>When \<^verbatim>\<open>SequenceMatcher\<close> compares a sequence with itself, the best match only ever
  changes on the diagonal \<open>i = j\<close>, also when popular elements have lost their entries in
  \<^verbatim>\<open>b2j\<close>; the two extension loops then stretch it over the whole sequence.\<close>

text \<open>The length of the run of elements that are not popular and that ends at position
  \<open>i\<close> of \<open>x\<close>.\<close>

fun run_length :: "string \<Rightarrow> nat \<Rightarrow> nat" where
  "run_length x 0 = (if bpopular x (x ! 0) then 0 else 1)"
| "run_length x (Suc i) = (if bpopular x (x ! Suc i) then 0 else run_length x i + 1)"

text \<open>\<^verbatim>\<open>d.get(j, 0)\<close>.\<close>

definition dget :: "(nat \<rightharpoonup> nat) \<Rightarrow> nat \<Rightarrow> nat" where
  "dget d j = (case d j of None \<Rightarrow> 0 | Some v \<Rightarrow> v)"

lemma j2lenget_dget: "j2lenget d j = (if j = 0 then 0 else dget d (j - 1))"
  by (simp add: j2lenget_def dget_def)

lemma run_length_le: "run_length x i \<le> Suc i"
  by (induction i) auto

lemma b2j_sorted: "sorted_wrt (<) (b2j b c)"
  by (simp add: b2j_def sorted_wrt_filter)

lemma b2j_set: "j \<in> set (b2j b c) \<longleftrightarrow> j < length b \<and> b ! j = c \<and> \<not> bpopular b c"
  by (auto simp: b2j_def)

lemma inner_loop_diag:
  assumes kb: "\<forall>j \<in> set js. j2lenget j2len j + 1 \<le> L j \<and> j2lenget j2len j + 1 \<le> L i"
    and kd: "i \<in> set js \<longrightarrow> j2lenget j2len i + 1 = L i"
    and rng: "\<forall>j \<in> set js. j < bhi"
    and srt: "sorted_wrt (<) js"
    and Li: "L i \<le> Suc i"
    and prev: "\<forall>j < i. L j \<le> bestsize"
    and cur: "i \<in> set js \<or> (L i \<le> bestsize \<and> (\<forall>j \<in> set js. i < j))"
    and eq: "besti = bestj"
    and bnd: "besti + bestsize \<le> Suc i"
    and nj: "\<forall>j v. newj2len j = Some v \<longrightarrow> v \<le> L j \<and> v \<le> L i"
    and nd: "i \<in> set js \<or> dget newj2len i = L i"
    and res: "inner_loop j2len i 0 bhi js (newj2len, besti, bestj, bestsize) = (m', bi', bj', bs')"
  shows "bi' = bj' \<and> bi' + bs' \<le> Suc i \<and> (\<forall>j \<le> i. L j \<le> bs')
         \<and> (\<forall>j v. m' j = Some v \<longrightarrow> v \<le> L j \<and> v \<le> L i) \<and> dget m' i = L i"
  using kb kd rng srt prev cur eq bnd nj nd res
proof (induction js arbitrary: newj2len besti bestj bestsize)
  case Nil
  then have "\<forall>j \<le> i. L j \<le> bestsize"
    by (auto simp: le_less)
  with Nil show ?case by auto
next
  case (Cons j js)
  define k where "k = j2lenget j2len j + 1"
  have kL: "k \<le> L j" "k \<le> L i"
    using Cons.prems(1) by (simp_all add: k_def)
  have jb: "j < bhi" using Cons.prems(3) by simp
  have srt': "sorted_wrt (<) js" and jlt: "\<forall>j' \<in> set js. j < j'"
    using Cons.prems(4) by simp_all
  have kb': "\<forall>j \<in> set js. j2lenget j2len j + 1 \<le> L j \<and> j2lenget j2len j + 1 \<le> L i"
    using Cons.prems(1) by simp
  have kd': "i \<in> set js \<longrightarrow> j2lenget j2len i + 1 = L i"
    using Cons.prems(2) by simp
  have rng': "\<forall>j \<in> set js. j < bhi"
    using Cons.prems(3) by simp
  have upd: "\<forall>j' v. (newj2len(j \<mapsto> k)) j' = Some v \<longrightarrow> v \<le> L j' \<and> v \<le> L i"
    using Cons.prems(9) kL by auto
  have nd': "i \<in> set js \<or> dget (newj2len(j \<mapsto> k)) i = L i"
  proof (cases "j = i")
    case True
    then have "k = L i" using Cons.prems(2) by (simp add: k_def)
    with True show ?thesis by (simp add: dget_def)
  next
    case False
    with Cons.prems(10) show ?thesis by (auto simp: dget_def)
  qed
  show ?case
  proof (cases "bestsize < k")
    case True
    have ji: "j = i"
    proof (rule ccontr)
      assume ne: "j \<noteq> i"
      show False
      proof (cases "j < i")
        case True
        then have "L j \<le> bestsize" using Cons.prems(5) by simp
        with kL(1) \<open>bestsize < k\<close> show False by simp
      next
        case False
        with ne have gt: "i < j" by simp
        have "i \<notin> set (j # js)"
          using gt jlt by auto
        with Cons.prems(6) have "L i \<le> bestsize" by simp
        with kL(2) \<open>bestsize < k\<close> show False by simp
      qed
    qed
    have step: "inner_loop j2len i 0 bhi js (newj2len(j \<mapsto> k), i + 1 - k, j + 1 - k, k)
                  = (m', bi', bj', bs')"
      using Cons.prems(11) True jb by (simp add: Let_def k_def)
    have ki: "k \<le> Suc i" using kL(2) Li by simp
    have keq: "k = L i" using Cons.prems(2) ji by (simp add: k_def)
    show ?thesis
    proof (rule Cons.IH[OF kb' kd' rng' srt' _ _ _ _ upd nd' step])
      show "\<forall>j < i. L j \<le> k" using Cons.prems(5) True by auto
      show "i \<in> set js \<or> L i \<le> k \<and> (\<forall>j \<in> set js. i < j)"
        using keq jlt ji by simp
      show "i + 1 - k = j + 1 - k" using ji by simp
      show "i + 1 - k + k \<le> Suc i" using ki by simp
    qed
  next
    case False
    have step: "inner_loop j2len i 0 bhi js (newj2len(j \<mapsto> k), besti, bestj, bestsize)
                  = (m', bi', bj', bs')"
      using Cons.prems(11) False jb by (simp add: Let_def k_def)
    show ?thesis
    proof (rule Cons.IH[OF kb' kd' rng' srt' Cons.prems(5) _ Cons.prems(7) Cons.prems(8) upd nd' step])
      show "i \<in> set js \<or> L i \<le> bestsize \<and> (\<forall>j \<in> set js. i < j)"
      proof (cases "j = i")
        case True
        then have "k = L i" using Cons.prems(2) by (simp add: k_def)
        with False True jlt show ?thesis by simp
      next
        case ne: False
        with Cons.prems(6) jlt show ?thesis by auto
      qed
    qed
  qed
qed


lemma run_length_step:
  "\<not> bpopular x (x ! j) \<Longrightarrow> run_length x j = (if j = 0 then 1 else run_length x (j - 1) + 1)"
  by (cases j) simp_all

lemma run_length_popular: "bpopular x (x ! j) \<Longrightarrow> run_length x j = 0"
  by (cases j) simp_all

definition diag_inv :: "string \<Rightarrow> nat \<Rightarrow> (nat \<rightharpoonup> nat) \<times> nat \<times> nat \<times> nat \<Rightarrow> bool" where
  "diag_inv x i st =
     (case st of
        (j2len, besti, bestj, bestsize) \<Rightarrow>
          besti = bestj \<and> besti + bestsize \<le> i
          \<and> (\<forall>j < i. run_length x j \<le> bestsize)
          \<and> (\<forall>j v. j2len j = Some v \<longrightarrow>
                 v \<le> run_length x j \<and> 0 < i \<and> v \<le> run_length x (i - 1))
          \<and> (0 < i \<longrightarrow> dget j2len (i - 1) = run_length x (i - 1)))"

lemma dget_le:
  "\<forall>j v. d j = Some v \<longrightarrow> v \<le> f j \<and> v \<le> c \<Longrightarrow> dget d j \<le> f j \<and> dget d j \<le> c"
  by (auto simp: dget_def split: option.splits)

lemma diag_row:
  assumes inv: "diag_inv x i (j2len, besti, bestj, bestsize)" and i: "i < length x"
  shows "diag_inv x (Suc i)
           (inner_loop j2len i 0 (length x) (b2j x (x ! i)) (Map.empty, besti, bestj, bestsize))"
proof -
  let ?L = "run_length x"
  let ?js = "b2j x (x ! i)"
  obtain m' bi' bj' bs' where res:
    "inner_loop j2len i 0 (length x) ?js (Map.empty, besti, bestj, bestsize) = (m', bi', bj', bs')"
    by (metis prod_cases4)
  from inv have eq: "besti = bestj" and bnd: "besti + bestsize \<le> i"
    and prev: "\<forall>j < i. ?L j \<le> bestsize"
    and jl: "\<forall>j v. j2len j = Some v \<longrightarrow> v \<le> ?L j \<and> 0 < i \<and> v \<le> ?L (i - 1)"
    and dg: "0 < i \<longrightarrow> dget j2len (i - 1) = ?L (i - 1)"
    by (simp_all add: diag_inv_def)
  have empty0: "i = 0 \<Longrightarrow> dget j2len j = 0" for j
    using jl by (auto simp: dget_def split: option.splits)
  have dle: "dget j2len j \<le> ?L j" for j
    using jl by (auto simp: dget_def split: option.splits)
  have dle': "0 < i \<Longrightarrow> dget j2len j \<le> ?L (i - 1)" for j
    using jl by (auto simp: dget_def split: option.splits)
  have kb: "\<forall>j \<in> set ?js. j2lenget j2len j + 1 \<le> ?L j \<and> j2lenget j2len j + 1 \<le> ?L i"
  proof
    fix j assume "j \<in> set ?js"
    then have np: "\<not> bpopular x (x ! j)" "\<not> bpopular x (x ! i)"
      by (auto simp: b2j_set)
    have "j2lenget j2len j + 1 \<le> ?L j"
      using dle[of "j - 1"] by (simp add: j2lenget_dget run_length_step[OF np(1)])
    moreover have "j2lenget j2len j + 1 \<le> ?L i"
    proof (cases "i = 0")
      case True
      then show ?thesis
        using empty0[of "j - 1"] np(2) by (simp add: j2lenget_dget)
    next
      case False
      then show ?thesis
        using dle'[of "j - 1"] by (simp add: j2lenget_dget run_length_step[OF np(2)])
    qed
    ultimately show "j2lenget j2len j + 1 \<le> ?L j \<and> j2lenget j2len j + 1 \<le> ?L i" ..
  qed
  have kd: "i \<in> set ?js \<longrightarrow> j2lenget j2len i + 1 = ?L i"
  proof
    assume "i \<in> set ?js"
    then have np: "\<not> bpopular x (x ! i)" by (simp add: b2j_set)
    show "j2lenget j2len i + 1 = ?L i"
      using dg by (simp add: j2lenget_dget run_length_step[OF np])
  qed
  have rng: "\<forall>j \<in> set ?js. j < length x"
    by (simp add: b2j_set)
  have cur: "i \<in> set ?js \<or> (?L i \<le> bestsize \<and> (\<forall>j \<in> set ?js. i < j))"
  proof (cases "bpopular x (x ! i)")
    case True
    then show ?thesis by (simp add: run_length_popular b2j_def)
  next
    case False
    with i show ?thesis by (simp add: b2j_set)
  qed
  have nd: "i \<in> set ?js \<or> dget Map.empty i = ?L i"
  proof (cases "bpopular x (x ! i)")
    case True
    then show ?thesis by (simp add: run_length_popular dget_def)
  next
    case False
    with i show ?thesis by (simp add: b2j_set)
  qed
  have "bi' = bj' \<and> bi' + bs' \<le> Suc i \<and> (\<forall>j \<le> i. ?L j \<le> bs')
         \<and> (\<forall>j v. m' j = Some v \<longrightarrow> v \<le> ?L j \<and> v \<le> ?L i) \<and> dget m' i = ?L i"
  proof (rule inner_loop_diag[OF kb kd rng b2j_sorted run_length_le prev cur eq _ _ nd res])
    show "besti + bestsize \<le> Suc i" using bnd by simp
    show "\<forall>j v. Map.empty j = Some v \<longrightarrow> v \<le> ?L j \<and> v \<le> ?L i" by simp
  qed
  then show ?thesis
    by (simp add: res diag_inv_def less_Suc_eq_le)
qed

lemma diag_outer:
  assumes "diag_inv x i st" and "i \<le> length x"
  shows "diag_inv x (length x) (outer_loop x x 0 (length x) [i..<length x] st)"
  using assms
proof (induction "length x - i" arbitrary: i st)
  case 0
  then show ?case by simp
next
  case (Suc d)
  then have lt: "i < length x" by simp
  obtain j2len besti bestj bestsize where st: "st = (j2len, besti, bestj, bestsize)"
    by (metis prod_cases4)
  have row: "diag_inv x (Suc i)
      (inner_loop j2len i 0 (length x) (b2j x (x ! i)) (Map.empty, besti, bestj, bestsize))"
    using Suc.prems(1) lt unfolding st by (rule diag_row)
  have "d = length x - Suc i" using Suc.hyps(2) by simp
  from Suc.hyps(1)[OF this row] lt show ?case
    by (simp add: upt_conv_Cons st)
qed

lemma extend_left_diag:
  "extend_left x x 0 0 (i, i, k) = (0, 0, i + k)"
proof (induction i arbitrary: k)
  case 0
  then show ?case by (simp add: extend_left.simps)
next
  case (Suc i)
  have "extend_left x x 0 0 (Suc i, Suc i, k) = extend_left x x 0 0 (i, i, k + 1)"
    by (subst extend_left.simps) simp
  with Suc show ?case by simp
qed

lemma extend_right_diag:
  "k \<le> n \<Longrightarrow> extend_right x x n n (0, 0, k) = (0, 0, n)"
proof (induction "n - k" arbitrary: k)
  case 0
  then show ?case by (simp add: extend_right.simps)
next
  case (Suc d)
  then have lt: "k < n" by simp
  then have "extend_right x x n n (0, 0, k) = extend_right x x n n (0, 0, k + 1)"
    by (subst extend_right.simps) simp
  moreover have "extend_right x x n n (0, 0, k + 1) = (0, 0, n)"
    using Suc.hyps(2) lt by (intro Suc.hyps(1)) simp_all
  ultimately show ?case by simp
qed

lemma find_longest_match_self:
  "find_longest_match x x 0 (length x) 0 (length x) = (0, 0, length x)"
proof -
  obtain m bi bj bs where o:
    "outer_loop x x 0 (length x) [0..<length x] (Map.empty, 0, 0, 0) = (m, bi, bj, bs)"
    by (metis prod_cases4)
  have "diag_inv x 0 (Map.empty, 0, 0, 0)"
    by (simp add: diag_inv_def)
  from diag_outer[OF this, of] have "diag_inv x (length x) (m, bi, bj, bs)"
    by (simp add: o)
  then have d: "bi = bj" "bi + bs \<le> length x"
    by (simp_all add: diag_inv_def)
  show ?thesis
    using d extend_right_diag[of "bi + bs" "length x" x]
    by (simp add: find_longest_match_def o extend_left_diag)
qed

lemma get_matching_blocks_self:
  assumes "x \<noteq> []"
  shows "get_matching_blocks x x = [(0, 0, length x), (length x, length x, 0)]"
proof -
  have mb: "matching_blocks_loop x x [(0, length x, 0, length x)] [] = [(0, 0, length x)]"
    using assms by (simp add: find_longest_match_self)
  show ?thesis
    unfolding get_matching_blocks_def Let_def mb using assms by simp
qed

lemma ratio_self_matches:
  "x \<noteq> [] \<Longrightarrow> sum_list (map (\<lambda>(i, j, k). k) (get_matching_blocks x x)) = length x"
  by (simp add: get_matching_blocks_self)

section \<open>Reflexivity of the similarity scorer and of the address matcher\<close>

lemma similarity_ratio_self: "x \<noteq> [] \<Longrightarrow> similarity_ratio x x = 100"
  by (simp add: similarity_ratio_def ratio_def ratio_self_matches calculate_ratio_all
      fmul_one_hundred)

text \<open>
  Claim C3, amended. For every non-empty input \<open>x\<close>, \<^verbatim>\<open>similarity_ratio(x, x) == 100\<close>; for
  the empty string the guard of the function returns 0.
\<close>

theorem similarity_ratio_reflexive:
  "similarity_ratio x x = (if x = [] then 0 else 100)"
  by (simp add: similarity_ratio_self) (simp add: similarity_ratio_def)

theorem similarity_ratio_reflexive_witness:
  "similarity_ratio ''12 mg pune 411001'' ''12 mg pune 411001'' = 100"
  using similarity_ratio_reflexive [of "''12 mg pune 411001''"] by simp

text \<open>Claim C3 as stated fails at the empty string, which it includes.\<close>

theorem similarity_ratio_empty:
  "similarity_ratio [] [] = 0 \<and> similarity_ratio [] [] \<noteq> 100"
  by (simp add: similarity_ratio_def)

lemma short_tokens_score:
  "fadd (fmul (round_double (6 / 10)) 100) (fmul (round_double (4 / 10)) 0) = 60"
  "fadd (fmul (round_double (6 / 10)) 0) (fmul (round_double (4 / 10)) 0) = 0"
  "fadd (fmul (round_double (3 / 5)) 100) (fmul (round_double (2 / 5)) 0) = 60"
  "fadd (fmul (round_double (3 / 5)) 0) (fmul (round_double (2 / 5)) 0) = 0"
  by code_simp+

text \<open>
  Claim C9, amended. \<^verbatim>\<open>address_match\<close> is not reflexive: for any non-empty address from
  which \<^verbatim>\<open>extract_pincode\<close> extracts nothing and whose normalized tokens all have length at
  most 3, the address fails to match itself; the final score is \<open>0.6 * 100 + 0.4 * 0 = 60\<close>
  when the normalized address is not empty, and 0 when it is.
\<close>

theorem address_match_short_tokens:
  assumes "x \<noteq> []" and "extract_pincode x = []"
    and "\<forall>t \<in> set (split_ws (normalize_address x)). length t \<le> 3"
  shows "final_score x x = (if normalize_address x = [] then 0 else 60) \<and> \<not> address_match x x"
proof -
  have sig: "filter (\<lambda>part. 3 < length part) (split_ws (normalize_address x)) = []"
    using assms(3) by (auto simp: filter_empty_conv)
  have sim: "similarity_ratio (normalize_address x) (normalize_address x)
               = (if normalize_address x = [] then 0 else 100)"
    by (simp add: similarity_ratio_self) (simp add: similarity_ratio_def)
  have fs: "final_score x x = (if normalize_address x = [] then 0 else 60)"
    using assms(2) sig sim
    by (simp add: final_score_def pincode_score_def similarity_score_def parts_score_def
        significant_tokens_def short_tokens_score)
  have "\<not> address_match x x"
    using assms(1,2) sig sim by (simp add: address_match_def Let_def short_tokens_score)
  with fs show ?thesis by simp
qed

text \<open>The example of the claim, \<^verbatim>\<open>"abc def"\<close>, which shows that such an address exists.\<close>

theorem address_match_short_tokens_witness:
  "''abc def'' \<noteq> [] \<and> extract_pincode ''abc def'' = []
   \<and> split_ws (normalize_address ''abc def'') = [''abc'', ''def'']
   \<and> final_score ''abc def'' ''abc def'' = 60 \<and> \<not> address_match ''abc def'' ''abc def''"
proof -
  have h1: "extract_pincode ''abc def'' = []" by code_simp
  have n: "normalize_address ''abc def'' = ''abc def''" by code_simp
  have s: "split_ws ''abc def'' = [''abc'', ''def'']" by code_simp
  have h2: "\<forall>t \<in> set (split_ws (normalize_address ''abc def'')). length t \<le> 3"
    unfolding n s by simp
  show ?thesis
    using address_match_short_tokens [of "''abc def''"] h1 h2 n s by simp
qed

text \<open>
  Claim C9 as stated fails: \<^verbatim>\<open>"123 456"\<close> contains no run of six digits and its normalized
  tokens have length 3, but once the space is removed the two halves form a pincode, the
  pincode branch scores \<open>0.4 * 100 + 0.4 * 100 + 0.2 * 0 = 80\<close>, and the address matches
  itself. And \<^verbatim>\<open>"road"\<close>, which normalizes to the empty string, has the final score 0,
  not 60.
\<close>

theorem address_match_spaced_pincode:
  "digit_runs ''123 456'' = [''123'', ''456'']
   \<and> split_ws (normalize_address ''123 456'') = [''123'', ''456'']
   \<and> address_match ''123 456'' ''123 456''
   \<and> digit_runs ''road'' = [] \<and> split_ws (normalize_address ''road'') = []
   \<and> final_score ''road'' ''road'' = 0"
  by code_simp

end
